theory Spec2Isabelle
  imports Main
begin

section \<open>Python strings\<close>

text \<open>
  Python \<open>str\<close> values are modelled as \<open>string\<close>; a character is a code point below 256.
  The helpers below are the \<open>str\<close> methods that \<open>scraper.py\<close> and \<open>urllib.parse\<close> call.
\<close>

definition isspace :: "char \<Rightarrow> bool" where
  \<comment> \<open>\<open>str.isspace\<close> on one character: the white space that \<open>str.strip()\<close> removes.\<close>
  "isspace c = (let n = (of_char c :: nat) in
     (9 \<le> n \<and> n \<le> 13) \<or> (28 \<le> n \<and> n \<le> 32) \<or> n = 133 \<or> n = 160)"

definition lstrip :: "(char \<Rightarrow> bool) \<Rightarrow> string \<Rightarrow> string" where
  "lstrip P s = dropWhile P s"

definition rstrip :: "(char \<Rightarrow> bool) \<Rightarrow> string \<Rightarrow> string" where
  "rstrip P s = rev (dropWhile P (rev s))"

definition strip :: "string \<Rightarrow> string" where
  \<comment> \<open>\<open>s.strip()\<close>\<close>
  "strip s = rstrip isspace (lstrip isspace s)"

definition startswith :: "string \<Rightarrow> string \<Rightarrow> bool" where
  \<comment> \<open>\<open>s.startswith(p)\<close>\<close>
  "startswith s p = (take (length p) s = p)"

definition endswith :: "string \<Rightarrow> string \<Rightarrow> bool" where
  \<comment> \<open>\<open>s.endswith(p)\<close>\<close>
  "endswith s p = (length p \<le> length s \<and> drop (length s - length p) s = p)"

definition lower_char :: "char \<Rightarrow> char" where
  \<comment> \<open>\<open>str.lower\<close> on one character below 256\<close>
  "lower_char c = (let n = (of_char c :: nat) in
     if (65 \<le> n \<and> n \<le> 90) \<or> (192 \<le> n \<and> n \<le> 222 \<and> n \<noteq> 215)
     then char_of (n + 32) else c)"

definition lower :: "string \<Rightarrow> string" where
  "lower s = map lower_char s"

definition before :: "char \<Rightarrow> string \<Rightarrow> string" where
  \<comment> \<open>\<open>s[:s.find(c)]\<close> when \<open>c\<close> occurs in \<open>s\<close>, else \<open>s\<close>\<close>
  "before c s = takeWhile (\<lambda>x. x \<noteq> c) s"

definition after :: "char \<Rightarrow> string \<Rightarrow> string" where
  \<comment> \<open>\<open>s[s.find(c)+1:]\<close> when \<open>c\<close> occurs in \<open>s\<close>, else empty\<close>
  "after c s = drop 1 (dropWhile (\<lambda>x. x \<noteq> c) s)"

section \<open>urllib.parse.urlparse\<close>

text \<open>
  \<open>scraper.py\<close> reads URLs through \<open>urlparse\<close> of the standard library. The model follows
  \<open>urlsplit\<close>, \<open>_splitnetloc\<close>, \<open>_splitparams\<close> and \<open>urlparse\<close> of CPython 3.11 on \<open>str\<close>
  input with the default arguments. The \<open>ValueError\<close> of a malformed bracketed host is the
  result \<open>None\<close>; the check of the text between the brackets (\<open>_check_bracketed_host\<close>, which
  calls the \<open>ipaddress\<close> module) is the parameter \<open>bh\<close>. \<open>_checknetloc\<close> raises for no
  network location made of code points below 256 and is left out.
\<close>

record ParseResult =
  scheme :: string
  netloc :: string
  path :: string
  params :: string
  query :: string
  fragment :: string

definition scheme_chars :: string where
  "scheme_chars = ''abcdefghijklmnopqrstuvwxyzABCDEFGHIJKLMNOPQRSTUVWXYZ0123456789+-.''"

definition ascii_alpha :: "char \<Rightarrow> bool" where
  \<comment> \<open>\<open>c.isascii() and c.isalpha()\<close>\<close>
  "ascii_alpha c = (let n = (of_char c :: nat) in (65 \<le> n \<and> n \<le> 90) \<or> (97 \<le> n \<and> n \<le> 122))"

definition c0_control_or_space :: "char \<Rightarrow> bool" where
  \<comment> \<open>membership in \<open>_WHATWG_C0_CONTROL_OR_SPACE\<close>\<close>
  "c0_control_or_space c = ((of_char c :: nat) \<le> 32)"

definition unsafe_url_byte :: "char \<Rightarrow> bool" where
  \<comment> \<open>membership in \<open>_UNSAFE_URL_BYTES_TO_REMOVE\<close>: tab, carriage return, line feed\<close>
  "unsafe_url_byte c = ((of_char c :: nat) \<in> {9, 13, 10})"

definition has_scheme :: "string \<Rightarrow> bool" where
  \<comment> \<open>\<open>i = url.find(':')\<close>, \<open>i > 0\<close>, a first character that is an ASCII letter, and
      every character of \<open>url[:i]\<close> in \<open>scheme_chars\<close>\<close>
  "has_scheme url = (CHR '':'' \<in> set url \<and> before CHR '':'' url \<noteq> [] \<and>
     ascii_alpha (hd url) \<and> list_all (\<lambda>c. c \<in> set scheme_chars) (before CHR '':'' url))"

definition netloc_delim :: "char \<Rightarrow> bool" where
  "netloc_delim c = (c \<in> set ''/?#'')"

definition splitnetloc :: "string \<Rightarrow> string \<times> string" where
  \<comment> \<open>\<open>_splitnetloc(url, 2)\<close>: the text after the two slashes up to the first of \<open>/?#\<close>, and the rest\<close>
  "splitnetloc url = (takeWhile (\<lambda>c. \<not> netloc_delim c) (drop 2 url),
                      dropWhile (\<lambda>c. \<not> netloc_delim c) (drop 2 url))"

definition netloc_ok :: "(string \<Rightarrow> bool) \<Rightarrow> string \<Rightarrow> bool" where
  \<comment> \<open>the two checks of \<open>urlsplit\<close> on the brackets of the network location\<close>
  "netloc_ok bh nl =
     (if (CHR ''['' \<in> set nl \<and> CHR '']'' \<notin> set nl) \<or> (CHR '']'' \<in> set nl \<and> CHR ''['' \<notin> set nl)
      then False
      else if CHR ''['' \<in> set nl \<and> CHR '']'' \<in> set nl
      then bh (before CHR '']'' (after CHR ''['' nl))
      else True)"

definition urlsplit :: "(string \<Rightarrow> bool) \<Rightarrow> string \<Rightarrow> (string \<times> string \<times> string \<times> string \<times> string) option" where
  "urlsplit bh url0 =
     (let url1 = filter (\<lambda>c. \<not> unsafe_url_byte c) (lstrip c0_control_or_space url0);
          (sch, url2) = (if has_scheme url1
                         then (lower (before CHR '':'' url1), after CHR '':'' url1)
                         else ([], url1));
          (nl, url3) = (if take 2 url2 = ''//'' then splitnetloc url2 else ([], url2))
      in if \<not> netloc_ok bh nl then None
         else
           let (url4, frag) = (if CHR ''#'' \<in> set url3
                               then (before CHR ''#'' url3, after CHR ''#'' url3) else (url3, []));
               (url5, qu) = (if CHR ''?'' \<in> set url4
                             then (before CHR ''?'' url4, after CHR ''?'' url4) else (url4, []))
           in Some (sch, nl, url5, qu, frag))"

definition uses_params :: "string list" where
  "uses_params = ['''', ''ftp'', ''hdl'', ''prospero'', ''http'', ''imap'', ''https'', ''shttp'',
                  ''rtsp'', ''rtsps'', ''rtspu'', ''sip'', ''sips'', ''mms'', ''sftp'', ''tel'']"

definition rfind :: "char \<Rightarrow> string \<Rightarrow> nat" where
  \<comment> \<open>\<open>s.rfind(c)\<close> when \<open>c\<close> occurs in \<open>s\<close>\<close>
  "rfind c s = length s - 1 - length (takeWhile (\<lambda>x. x \<noteq> c) (rev s))"

definition splitparams :: "string \<Rightarrow> string \<times> string" where
  \<comment> \<open>\<open>_splitparams(url)\<close>, called when \<open>url\<close> has a semicolon\<close>
  "splitparams url =
     (if CHR ''/'' \<in> set url
      then let k = rfind CHR ''/'' url in
           if CHR '';'' \<notin> set (drop k url) then (url, [])
           else (take k url @ before CHR '';'' (drop k url), after CHR '';'' (drop k url))
      else (before CHR '';'' url, after CHR '';'' url))"

definition urlparse :: "(string \<Rightarrow> bool) \<Rightarrow> string \<Rightarrow> ParseResult option" where
  "urlparse bh url =
     (case urlsplit bh url of
        None \<Rightarrow> None
      | Some (sch, nl, u, qu, frag) \<Rightarrow>
          let (u', pa) = (if sch \<in> set uses_params \<and> CHR '';'' \<in> set u then splitparams u else (u, []))
          in Some \<lparr>scheme = sch, netloc = nl, path = u', params = pa, query = qu, fragment = frag\<rparr>)"

section \<open>normalize_url\<close>

datatype error = ValueError | IndexError | KeyError

definition normalize_url :: "(string \<Rightarrow> bool) \<Rightarrow> string \<Rightarrow> error + string" where
  "normalize_url bh url =
     (case urlparse bh url of
        None \<Rightarrow> Inl ValueError
      | Some parsed \<Rightarrow>
          let path' = rstrip (\<lambda>c. c = CHR ''/'') (path parsed);
              normalized = scheme parsed @ ''://'' @ netloc parsed @ path'
          in Inr (if query parsed \<noteq> [] then normalized @ ''?'' @ query parsed else normalized))"

section \<open>Parsed documents\<close>

text \<open>
  A parsed document as \<open>BeautifulSoup\<close> (version 4.11 and later) holds it: a tree of tags,
  each with a name, its attributes and its children, with text nodes and comments at the
  leaves. The \<open>BeautifulSoup\<close> object is the root tag, named \<open>[document]\<close>. Attribute values
  are kept as written; the value of \<open>class\<close> is split at white space where it is read, as the
  parser does. Doctypes, CDATA sections and processing instructions are not modelled.

  A text node is an object of class \<open>NavigableString\<close> or of one of its subclasses. The HTML
  tree builders give the text inside a \<open>script\<close>, \<open>style\<close>, \<open>template\<close>, \<open>rt\<close> or \<open>rp\<close> element
  the subclass that \<open>string_containers\<close> holds for the innermost such element around it
  (\<open>BeautifulSoup.string_container\<close>); all other text is a plain \<open>NavigableString\<close>. The node
  \<open>ContainerString k s\<close> is a text node of the subclass \<open>k\<close>.
\<close>

datatype string_class = Script | Stylesheet | TemplateString | RubyTextString | RubyParenthesisString

datatype node =
    Tag string "(string \<times> string) list" "node list"
  | NavigableString string
  | Comment string
  | ContainerString string_class string

definition string_containers :: "(string \<times> string_class) list" where
  \<comment> \<open>\<open>HTMLTreeBuilder.DEFAULT_STRING_CONTAINERS\<close>\<close>
  "string_containers =
     [(''rt'', RubyTextString), (''rp'', RubyParenthesisString), (''style'', Stylesheet),
      (''script'', Script), (''template'', TemplateString)]"

fun name_of :: "node \<Rightarrow> string" where
  "name_of (Tag nm a cs) = nm"
| "name_of (NavigableString s) = []"
| "name_of (Comment s) = []"
| "name_of (ContainerString k s) = []"

fun is_tag :: "string list \<Rightarrow> node \<Rightarrow> bool" where
  \<comment> \<open>a tag whose name is one of \<open>names\<close>\<close>
  "is_tag names (Tag nm a cs) = (nm \<in> set names)"
| "is_tag names (NavigableString s) = False"
| "is_tag names (Comment s) = False"
| "is_tag names (ContainerString k s) = False"

fun is_comment :: "node \<Rightarrow> bool" where
  "is_comment (Comment s) = True"
| "is_comment (Tag nm a cs) = False"
| "is_comment (NavigableString s) = False"
| "is_comment (ContainerString k s) = False"

fun get_attr :: "node \<Rightarrow> string \<Rightarrow> string option" where
  \<comment> \<open>\<open>tag.get(key)\<close>\<close>
  "get_attr (Tag nm a cs) key = map_of a key"
| "get_attr (NavigableString s) key = None"
| "get_attr (Comment s) key = None"
| "get_attr (ContainerString k s) key = None"

fun descendants :: "node \<Rightarrow> node list" where
  \<comment> \<open>\<open>tag.descendants\<close>: every node below the tag, in document order\<close>
  "descendants (Tag nm a cs) = concat (map (\<lambda>c. c # descendants c) cs)"
| "descendants (NavigableString s) = []"
| "descendants (Comment s) = []"
| "descendants (ContainerString k s) = []"

definition find_all :: "(node \<Rightarrow> bool) \<Rightarrow> node \<Rightarrow> node list" where
  "find_all P n = filter P (descendants n)"

definition find_first :: "(node \<Rightarrow> bool) \<Rightarrow> node \<Rightarrow> node option" where
  \<comment> \<open>\<open>tag.find(...)\<close>: the first match in document order, or \<open>None\<close>\<close>
  "find_first P n = List.find P (descendants n)"

fun split_ws_aux :: "string \<Rightarrow> string \<Rightarrow> string list" where
  "split_ws_aux cur [] = (if cur = [] then [] else [cur])"
| "split_ws_aux cur (c # cs) =
     (if isspace c then (if cur = [] then split_ws_aux [] cs else cur # split_ws_aux [] cs)
      else split_ws_aux (cur @ [c]) cs)"

definition split_ws :: "string \<Rightarrow> string list" where
  \<comment> \<open>the maximal runs of characters that are not white space\<close>
  "split_ws s = split_ws_aux [] s"

definition get_class :: "node \<Rightarrow> string list option" where
  \<comment> \<open>\<open>tag.get("class")\<close>: the list of class tokens\<close>
  "get_class n = map_option split_ws (get_attr n ''class'')"

definition has_id :: "string \<Rightarrow> node \<Rightarrow> bool" where
  \<comment> \<open>the filter \<open>id=v\<close> of \<open>find\<close>\<close>
  "has_id v n = (get_attr n ''id'' = Some v)"

definition has_class :: "string \<Rightarrow> node \<Rightarrow> bool" where
  \<comment> \<open>the filter \<open>class_=v\<close> of \<open>find\<close>, for a \<open>v\<close> without white space\<close>
  "has_class v n = (case get_class n of None \<Rightarrow> False | Some cls \<Rightarrow> v \<in> set cls)"

definition interesting_string_types :: "node \<Rightarrow> string_class option" where
  \<comment> \<open>\<open>tag.interesting_string_types\<close>: the class in \<open>string_containers\<close> for the name of the
      tag, or the default \<open>(NavigableString, CData)\<close>, which is \<open>None\<close> here\<close>
  "interesting_string_types n = map_of string_containers (name_of n)"

fun string_of :: "string_class option \<Rightarrow> node \<Rightarrow> string list" where
  \<comment> \<open>the test of \<open>_all_strings\<close> on one descendant: a text node whose class is exactly one of
      \<open>types\<close> passes\<close>
  "string_of types (NavigableString s) = (if types = None then [s] else [])"
| "string_of types (ContainerString k s) = (if types = Some k then [s] else [])"
| "string_of types (Tag nm a cs) = []"
| "string_of types (Comment s) = []"

fun join :: "string \<Rightarrow> string list \<Rightarrow> string" where
  \<comment> \<open>\<open>sep.join(xs)\<close>\<close>
  "join sep [] = []"
| "join sep [x] = x"
| "join sep (x # y # ys) = x @ sep @ join sep (y # ys)"

definition all_strings :: "bool \<Rightarrow> node \<Rightarrow> string list" where
  \<comment> \<open>\<open>tag._all_strings(strip)\<close> with the default \<open>types\<close>: the text nodes below the tag whose
      class is one of \<open>tag.interesting_string_types\<close>, so that comments are left out and, for
      a tag that is no string container, the text inside \<open>script\<close>, \<open>style\<close>, \<open>template\<close>, \<open>rt\<close>
      and \<open>rp\<close> elements; with \<open>strip\<close>, each stripped and dropped when empty\<close>
  "all_strings strp n =
     (let ss = concat (map (string_of (interesting_string_types n)) (descendants n))
      in if strp then filter (\<lambda>s. s \<noteq> []) (map strip ss) else ss)"

definition get_text :: "string \<Rightarrow> bool \<Rightarrow> node \<Rightarrow> string" where
  \<comment> \<open>\<open>tag.get_text(separator, strip)\<close>\<close>
  "get_text sep strp n = join sep (all_strings strp n)"

fun dot_string :: "node \<Rightarrow> string option" where
  \<comment> \<open>\<open>tag.string\<close>: the only child when it is a string, the \<open>.string\<close> of the only child
      when it is a tag, else \<open>None\<close>\<close>
  "dot_string (Tag nm a [NavigableString s]) = Some s"
| "dot_string (Tag nm a [Comment s]) = Some s"
| "dot_string (Tag nm a [ContainerString k s]) = Some s"
| "dot_string (Tag nm a [Tag nm' a' cs']) = dot_string (Tag nm' a' cs')"
| "dot_string (Tag nm a cs) = None"
| "dot_string (NavigableString s) = Some s"
| "dot_string (Comment s) = Some s"
| "dot_string (ContainerString k s) = Some s"

fun remove_nodes :: "(node \<Rightarrow> bool) \<Rightarrow> node \<Rightarrow> node" where
  \<comment> \<open>the tree after \<open>for x in tag.find_all(...): x.decompose()\<close> (or \<open>x.extract()\<close>): every
      matching node below the tag is gone, with all that is under it\<close>
  "remove_nodes P (Tag nm a cs) = Tag nm a (map (remove_nodes P) (filter (\<lambda>c. \<not> P c) cs))"
| "remove_nodes P (NavigableString s) = NavigableString s"
| "remove_nodes P (Comment s) = Comment s"
| "remove_nodes P (ContainerString k s) = ContainerString k s"

fun modify_first :: "(node \<Rightarrow> bool) \<Rightarrow> (node \<Rightarrow> node) \<Rightarrow> node \<Rightarrow> node option"
  and modify_first_list :: "(node \<Rightarrow> bool) \<Rightarrow> (node \<Rightarrow> node) \<Rightarrow> node list \<Rightarrow> node list option" where
  "modify_first P f (Tag nm a cs) = map_option (Tag nm a) (modify_first_list P f cs)"
| "modify_first P f (NavigableString s) = None"
| "modify_first P f (Comment s) = None"
| "modify_first_list P f [] = None"
| "modify_first_list P f (c # cs) =
     (if P c then Some (f c # cs)
      else (case modify_first P f c of
              Some c' \<Rightarrow> Some (c' # cs)
            | None \<Rightarrow> map_option (\<lambda>cs'. c # cs') (modify_first_list P f cs)))"
| "modify_first P f (ContainerString k s) = None"

text \<open>
  The elements below a tag with the path of each (the positions of the children to follow
  from the tag) and the name of its parent. The path stands for the identity \<open>id(element)\<close>.
\<close>

fun walk :: "nat list \<Rightarrow> node \<Rightarrow> (nat list \<times> string \<times> node) list"
  and walk_children :: "nat list \<Rightarrow> string \<Rightarrow> nat \<Rightarrow> node list \<Rightarrow> (nat list \<times> string \<times> node) list" where
  "walk p (Tag nm a cs) = walk_children p nm 0 cs"
| "walk p (NavigableString s) = []"
| "walk p (Comment s) = []"
| "walk_children p nm i [] = []"
| "walk_children p nm i (c # cs) =
     (p @ [i], nm, c) # walk (p @ [i]) c @ walk_children p nm (Suc i) cs"
| "walk p (ContainerString k s) = []"

section \<open>More string functions\<close>

definition newline :: char where
  "newline = CHR 0x0A"

definition backtick :: char where
  "backtick = CHR 0x60"

function count_sub :: "string \<Rightarrow> string \<Rightarrow> nat" where
  \<comment> \<open>\<open>s.count(pat)\<close> for a \<open>pat\<close> that is not empty: occurrences that do not overlap\<close>
  "count_sub pat [] = 0"
| "count_sub pat (c # cs) =
     (if pat \<noteq> [] \<and> startswith (c # cs) pat
      then Suc (count_sub pat (drop (length pat) (c # cs)))
      else count_sub pat cs)"
  by pat_completeness auto
termination
  by (relation "measure (\<lambda>(pat, s). length s)") auto

function str_replace :: "string \<Rightarrow> string \<Rightarrow> string \<Rightarrow> string" where
  \<comment> \<open>\<open>s.replace(old, new)\<close> for an \<open>old\<close> that is not empty\<close>
  "str_replace old new [] = []"
| "str_replace old new (c # cs) =
     (if old \<noteq> [] \<and> startswith (c # cs) old
      then new @ str_replace old new (drop (length old) (c # cs))
      else c # str_replace old new cs)"
  by pat_completeness auto
termination
  by (relation "measure (\<lambda>(old, new, s). length s)") auto

fun collapse_newlines :: "nat \<Rightarrow> string \<Rightarrow> string" where
  \<comment> \<open>\<open>re.sub(r"\n{3,}", "\n\n", s)\<close>; the first argument counts the line feeds just read\<close>
  "collapse_newlines k [] = replicate (min k 2) newline"
| "collapse_newlines k (c # cs) =
     (if c = newline then collapse_newlines (Suc k) cs
      else replicate (min k 2) newline @ c # collapse_newlines 0 cs)"

section \<open>crawl\<close>

text \<open>
  A link is the dictionary \<open>{"url": ..., "text": ...}\<close> built by \<open>extract_internal_links\<close>, a
  page the dictionary \<open>{'url': ..., 'title': ..., 'content': ...}\<close> appended by \<open>crawl\<close>.
\<close>

record link =
  link_url :: string
  link_text :: string

record page =
  page_url :: string
  page_title :: string
  page_content :: string

text \<open>The tuple \<open>(title, content, links, success)\<close> returned by \<open>scrape_page\<close>.\<close>

type_synonym scrape_result = "string \<times> string \<times> link list \<times> bool"

text \<open>
  The local variables of \<open>crawl\<close> that the loop updates. The queue holds the tuples
  \<open>(url, depth, referer)\<close>. \<open>dequeued\<close> is a history variable: it logs the tuple returned
  by every \<open>to_visit.pop(0)\<close> and is read by no branch.
\<close>

record crawl_state =
  visited :: "string set"
  to_visit :: "(string \<times> int \<times> string option) list"
  pages :: "page list"
  all_links :: "link list"
  dequeued :: "(string \<times> int \<times> string option) list"

text \<open>
  The loop \<open>for link in links\<close> of \<open>crawl\<close>, run for the page \<open>url\<close> found at \<open>depth\<close>.
\<close>

fun enqueue_links :: "(string \<Rightarrow> bool) \<Rightarrow> string \<Rightarrow> int \<Rightarrow> link list \<Rightarrow> crawl_state \<Rightarrow> error + crawl_state" where
  "enqueue_links bh url depth [] s = Inr s"
| "enqueue_links bh url depth (l # ls) s =
     (case normalize_url bh (link_url l) of
        Inl e \<Rightarrow> Inl e
      | Inr normalized \<Rightarrow>
          if normalized \<notin> visited s \<and> normalized \<notin> set (map fst (to_visit s))
          then enqueue_links bh url depth ls
                 (s\<lparr>to_visit := to_visit s @ [(normalized, depth + 1, Some url)],
                    all_links := all_links s @ [l]\<rparr>)
          else enqueue_links bh url depth ls s)"

text \<open>
  One pass through the body of \<open>while to_visit and len(pages) < max_pages\<close>. The parameter
  \<open>scrape_page\<close> is the call \<open>scrape_page(url, referer=referer, ...)\<close> with the other arguments
  as \<open>crawl\<close> got them: what the network answers is an input of the model.
\<close>

definition crawl_iteration ::
  "(string \<Rightarrow> bool) \<Rightarrow> (string \<Rightarrow> string option \<Rightarrow> scrape_result) \<Rightarrow> int option \<Rightarrow> string option
     \<Rightarrow> string \<Rightarrow> crawl_state \<Rightarrow> error + crawl_state" where
  "crawl_iteration bh scrape_page max_depth path_prefix base_domain s =
     (case to_visit s of
        [] \<Rightarrow> Inl IndexError
      | (url, depth, referer) # rest \<Rightarrow>
          let s1 = s\<lparr>to_visit := rest, dequeued := dequeued s @ [(url, depth, referer)]\<rparr> in
          if url \<in> visited s1 then Inr s1
          else
            (case urlparse bh url of
               None \<Rightarrow> Inl ValueError
             | Some parsed \<Rightarrow>
                 if netloc parsed \<noteq> base_domain then Inr s1
                 else if (case path_prefix of None \<Rightarrow> False
                          | Some p \<Rightarrow> p \<noteq> [] \<and> \<not> startswith (path parsed) p) then Inr s1
                 else
                   let s2 = s1\<lparr>visited := insert url (visited s1)\<rparr>;
                       (title, content, links, success) = scrape_page url referer
                   in if success \<and> strip content \<noteq> []
                      then
                        let s3 = s2\<lparr>pages := pages s2 @
                                   [\<lparr>page_url = url, page_title = title, page_content = content\<rparr>]\<rparr>
                        in if (case max_depth of None \<Rightarrow> True | Some m \<Rightarrow> depth < m)
                           then enqueue_links bh url depth links s3
                           else Inr s3
                      else Inr s2))"

lemma enqueue_links_pages:
  "enqueue_links bh url depth ls s = Inr s' \<Longrightarrow> pages s' = pages s"
  by (induction ls arbitrary: s) (auto split: sum.splits if_splits)

lemma enqueue_links_visited:
  "enqueue_links bh url depth ls s = Inr s' \<Longrightarrow> visited s' = visited s"
  by (induction ls arbitrary: s) (auto split: sum.splits if_splits)

lemma enqueue_links_dequeued:
  "enqueue_links bh url depth ls s = Inr s' \<Longrightarrow> dequeued s' = dequeued s"
  by (induction ls arbitrary: s) (auto split: sum.splits if_splits)

text \<open>An iteration either appends one page, or appends none and shortens the queue by one.\<close>

lemma crawl_iteration_progress:
  assumes "crawl_iteration bh scrape_page max_depth path_prefix base_domain s = Inr s'"
  shows "(length (pages s') = Suc (length (pages s))) \<or>
         (pages s' = pages s \<and> Suc (length (to_visit s')) = length (to_visit s))"
  using assms
  by (auto simp: crawl_iteration_def Let_def
           split: list.splits option.splits if_splits prod.splits
           dest!: enqueue_links_pages)

function crawl_loop ::
  "(string \<Rightarrow> bool) \<Rightarrow> (string \<Rightarrow> string option \<Rightarrow> scrape_result) \<Rightarrow> int \<Rightarrow> int option \<Rightarrow> string option
     \<Rightarrow> string \<Rightarrow> crawl_state \<Rightarrow> error + crawl_state" where
  "crawl_loop bh scrape_page max_pages max_depth path_prefix base_domain s =
     (if to_visit s \<noteq> [] \<and> int (length (pages s)) < max_pages
      then (case crawl_iteration bh scrape_page max_depth path_prefix base_domain s of
              Inl e \<Rightarrow> Inl e
            | Inr s' \<Rightarrow> crawl_loop bh scrape_page max_pages max_depth path_prefix base_domain s')
      else Inr s)"
  by pat_completeness auto
termination
proof (relation "inv_image (less_than <*lex*> less_than)
          (\<lambda>(bh, sp, max_pages, md, pp, bd, s).
             (nat (max_pages - int (length (pages s))), length (to_visit s)))")
  show "wf (inv_image (less_than <*lex*> less_than)
          (\<lambda>(bh, sp, max_pages, md, pp, bd, s).
             (nat (max_pages - int (length (pages s))), length (to_visit s))))"
    by (intro wf_inv_image wf_lex_prod wf_less_than)
next
  fix bh :: "string \<Rightarrow> bool" and scrape_page :: "string \<Rightarrow> string option \<Rightarrow> scrape_result"
    and max_pages :: int and max_depth :: "int option" and path_prefix :: "string option"
    and base_domain :: string and s s' :: crawl_state
  assume guard: "to_visit s \<noteq> [] \<and> int (length (pages s)) < max_pages"
    and step: "crawl_iteration bh scrape_page max_depth path_prefix base_domain s = Inr s'"
  from crawl_iteration_progress [OF step] guard
  show "((bh, scrape_page, max_pages, max_depth, path_prefix, base_domain, s'),
         (bh, scrape_page, max_pages, max_depth, path_prefix, base_domain, s))
        \<in> inv_image (less_than <*lex*> less_than)
          (\<lambda>(bh, sp, max_pages, md, pp, bd, s).
             (nat (max_pages - int (length (pages s))), length (to_visit s)))"
    by auto
qed

declare crawl_loop.simps [simp del]

text \<open>A property that every iteration keeps holds when the loop ends.\<close>

lemma crawl_loop_invariant:
  assumes "crawl_loop bh sp mp md pp bd s = Inr s'"
    and "I s"
    and "\<And>t t'. I t \<Longrightarrow> to_visit t \<noteq> [] \<Longrightarrow> int (length (pages t)) < mp \<Longrightarrow>
            crawl_iteration bh sp md pp bd t = Inr t' \<Longrightarrow> I t'"
  shows "I s'"
  using assms
proof (induction bh sp mp md pp bd s rule: crawl_loop.induct)
  case (1 bh sp mp md pp bd s)
  show ?case
  proof (cases "to_visit s \<noteq> [] \<and> int (length (pages s)) < mp")
    case True
    with "1.prems"(1) obtain t where t: "crawl_iteration bh sp md pp bd s = Inr t"
      and rest: "crawl_loop bh sp mp md pp bd t = Inr s'"
      by (subst (asm) crawl_loop.simps) (auto split: sum.splits)
    have "I t" using "1.prems"(3) "1.prems"(2) True t by blast
    with "1.IH" [OF True t rest] "1.prems"(3) show ?thesis by blast
  next
    case False
    with "1.prems" show ?thesis by (subst (asm) crawl_loop.simps) simp
  qed
qed

lemma crawl_loop_exit:
  "crawl_loop bh sp mp md pp bd s = Inr s' \<Longrightarrow> to_visit s' = [] \<or> \<not> int (length (pages s')) < mp"
proof (induction bh sp mp md pp bd s rule: crawl_loop.induct)
  case (1 bh sp mp md pp bd s)
  show ?case
  proof (cases "to_visit s \<noteq> [] \<and> int (length (pages s)) < mp")
    case True
    with "1.prems"(1) obtain t where t: "crawl_iteration bh sp md pp bd s = Inr t"
      and rest: "crawl_loop bh sp mp md pp bd t = Inr s'"
      by (subst (asm) crawl_loop.simps) (auto split: sum.splits)
    with "1.IH" True show ?thesis by blast
  next
    case False
    with "1.prems" show ?thesis by (subst (asm) crawl_loop.simps) auto
  qed
qed

lemma crawl_iteration_pages_le:
  "crawl_iteration bh sp md pp bd s = Inr s' \<Longrightarrow> length (pages s') \<le> Suc (length (pages s))"
  using crawl_iteration_progress [of bh sp md pp bd s s'] by auto

lemma crawl_loop_pages_bound:
  assumes "crawl_loop bh sp mp md pp bd s = Inr s'" and "int (length (pages s)) \<le> mp"
  shows "int (length (pages s')) \<le> mp"
proof (rule crawl_loop_invariant [OF assms(1), where I = "\<lambda>t. int (length (pages t)) \<le> mp"])
  show "int (length (pages s)) \<le> mp" by (rule assms(2))
next
  fix t t'
  assume "int (length (pages t)) < mp" and "crawl_iteration bh sp md pp bd t = Inr t'"
  then show "int (length (pages t')) \<le> mp"
    using crawl_iteration_pages_le [of bh sp md pp bd t t'] by linarith
qed

text \<open>
  \<open>crawl\<close>: the initial state, the loop, and the returned pair \<open>(pages, all_links)\<close>.
  \<open>crawl_run\<close> is the state in which the loop ends.
\<close>

definition crawl_run ::
  "(string \<Rightarrow> bool) \<Rightarrow> (string \<Rightarrow> string option \<Rightarrow> scrape_result) \<Rightarrow> string \<Rightarrow> int \<Rightarrow> int option
     \<Rightarrow> string option \<Rightarrow> error + crawl_state" where
  "crawl_run bh scrape_page start_url max_pages max_depth path_prefix =
     (case normalize_url bh start_url of
        Inl e \<Rightarrow> Inl e
      | Inr start \<Rightarrow>
          (case urlparse bh start_url of
             None \<Rightarrow> Inl ValueError
           | Some parsed_start \<Rightarrow>
               crawl_loop bh scrape_page max_pages max_depth path_prefix (netloc parsed_start)
                 \<lparr>visited = {}, to_visit = [(start, 0, None)], pages = [], all_links = [],
                  dequeued = []\<rparr>))"

definition crawl ::
  "(string \<Rightarrow> bool) \<Rightarrow> (string \<Rightarrow> string option \<Rightarrow> scrape_result) \<Rightarrow> string \<Rightarrow> int \<Rightarrow> int option
     \<Rightarrow> string option \<Rightarrow> error + (page list \<times> link list)" where
  "crawl bh scrape_page start_url max_pages max_depth path_prefix =
     (case crawl_run bh scrape_page start_url max_pages max_depth path_prefix of
        Inl e \<Rightarrow> Inl e
      | Inr s \<Rightarrow> Inr (pages s, all_links s))"

section \<open>is_js_rendered\<close>

text \<open>
  Python passes a document by reference, and \<open>decompose()\<close> changes the tree it is called on.
  The documents therefore live in a heap, a list of trees; a \<open>soup\<close> argument is the index of
  one of them, and a function that can change a document returns the heap it leaves.
\<close>

definition replace_first :: "(node \<Rightarrow> bool) \<Rightarrow> (node \<Rightarrow> node) \<Rightarrow> node \<Rightarrow> node" where
  \<comment> \<open>the document after the first node that matches \<open>P\<close> was changed in place by \<open>f\<close>\<close>
  "replace_first P f doc = (case modify_first P f doc of Some doc' \<Rightarrow> doc' | None \<Rightarrow> doc)"

definition is_js_rendered :: "string \<Rightarrow> nat \<Rightarrow> node list \<Rightarrow> bool \<times> node list" where
  "is_js_rendered html soup heap =
     (case find_first (is_tag [''body'']) (heap ! soup) of
        None \<Rightarrow> (False, heap)
      | Some body \<Rightarrow>
          let body' = remove_nodes (is_tag [''script'', ''style'']) body;
              doc' = replace_first (is_tag [''body''])
                       (remove_nodes (is_tag [''script'', ''style''])) (heap ! soup);
              heap' = heap[soup := doc'];
              text = get_text [] True body';
              text_length = length text;
              script_count = count_sub ''<script'' (lower html);
              has_spa_container =
                (find_first (has_id ''app'') doc' \<noteq> None \<or>
                 find_first (has_id ''root'') doc' \<noteq> None \<or>
                 find_first (has_id ''__next'') doc' \<noteq> None \<or>
                 find_first (has_id ''__nuxt'') doc' \<noteq> None)
          in (if text_length < 500 \<and> script_count > 5 then True
              else if text_length < 200 \<and> has_spa_container then True
              else False,
              heap'))"

section \<open>get_page_title\<close>

definition get_page_title :: "node \<Rightarrow> string" where
  "get_page_title soup =
     (let title_tag = find_first (is_tag [''title'']) soup;
          title_string = (case title_tag of None \<Rightarrow> None | Some t \<Rightarrow> dot_string t)
      in if title_tag \<noteq> None \<and> title_string \<noteq> None \<and> title_string \<noteq> Some []
         then strip (the title_string)
         else
           (case find_first (is_tag [''h1'']) soup of
              Some h1 \<Rightarrow> get_text [] True h1
            | None \<Rightarrow>
                (case find_first (\<lambda>n. is_tag [''meta''] n \<and> get_attr n ''property'' = Some ''og:title'') soup of
                   None \<Rightarrow> ''Unbekannter Titel''
                 | Some og_title \<Rightarrow>
                     (case get_attr og_title ''content'' of
                        None \<Rightarrow> ''Unbekannter Titel''
                      | Some c \<Rightarrow> if c \<noteq> [] then c else ''Unbekannter Titel''))))"

section \<open>extract_text\<close>

definition unwanted :: "string list" where
  "unwanted = [''script'', ''style'', ''nav'', ''footer'', ''header'', ''aside'', ''noscript'',
               ''iframe'', ''svg'']"

definition block_names :: "string list" where
  "block_names = [''h1'', ''h2'', ''h3'', ''h4'', ''h5'', ''h6'', ''p'', ''li'', ''td'', ''th'',
                  ''blockquote'', ''pre'', ''code'']"

definition main_content :: "node \<Rightarrow> node" where
  \<comment> \<open>the chain \<open>soup.find("main") or ... or soup.find("body")\<close>, then \<open>soup\<close> itself\<close>
  "main_content soup =
     (case find_first (is_tag [''main'']) soup of Some m \<Rightarrow> m | None \<Rightarrow>
      (case find_first (is_tag [''article'']) soup of Some m \<Rightarrow> m | None \<Rightarrow>
       (case find_first (has_id ''content'') soup of Some m \<Rightarrow> m | None \<Rightarrow>
        (case find_first (has_class ''content'') soup of Some m \<Rightarrow> m | None \<Rightarrow>
         (case find_first (is_tag [''body'']) soup of Some m \<Rightarrow> m | None \<Rightarrow> soup)))))"

definition language_of :: "node \<Rightarrow> string" where
  \<comment> \<open>the language of a \<open>pre\<close> element: from the first class token of its first \<open>code\<close>
      element that starts with \<open>language-\<close>\<close>
  "language_of element =
     (case find_first (is_tag [''code'']) element of
        None \<Rightarrow> []
      | Some code_elem \<Rightarrow>
          (case get_class code_elem of
             None \<Rightarrow> []
           | Some classes \<Rightarrow>
               (case List.find (\<lambda>cls. startswith cls ''language-'') classes of
                  None \<Rightarrow> []
                | Some cls \<Rightarrow> str_replace ''language-'' [] cls)))"

definition fenced :: "string \<Rightarrow> string \<Rightarrow> string" where
  \<comment> \<open>the f-string of the fenced code block\<close>
  "fenced lang code_text =
     [newline] @ replicate 3 backtick @ lang @ [newline] @ strip code_text @ [newline] @
     replicate 3 backtick @ [newline]"

text \<open>
  The body of \<open>for element in main_content.find_all([...])\<close>, on the lines collected so far
  and the set \<open>seen_elements\<close>. The element comes with its path below \<open>main_content\<close> and the
  name of its parent.
\<close>

definition process_element ::
  "nat list \<times> string \<times> node \<Rightarrow> string list \<times> nat list set \<Rightarrow> string list \<times> nat list set" where
  "process_element pe st =
     (case pe of (p, parent_name, element) \<Rightarrow>
      case st of (lines, seen_elements) \<Rightarrow>
        if p \<in> seen_elements then (lines, seen_elements)
        else if name_of element = ''pre''
        then
          let seen1 = insert p seen_elements;
              seen2 = seen1 \<union> set (map (\<lambda>(q, pn, c). p @ q)
                                     (filter (\<lambda>(q, pn, c). is_tag [''code''] c) (walk [] element)));
              code_text = get_text [] False element
          in if strip code_text \<noteq> []
             then (lines @ [fenced (language_of element) code_text], seen2)
             else (lines, seen2)
        else if name_of element = ''code''
        then
          if parent_name = ''pre'' then (lines, seen_elements)
          else
            let text = get_text [] True element
            in if text \<noteq> [] then (lines @ [[backtick] @ text @ [backtick]], seen_elements)
               else (lines, seen_elements)
        else
          let text = get_text [] True element
          in if text = [] then (lines, seen_elements)
             else if startswith (name_of element) ''h'' \<and> length (name_of element) = 2
             then
               let level = (of_char (name_of element ! 1) :: nat) - 48
               in (lines @ [[newline] @ replicate level CHR ''#'' @ '' '' @ text @ [newline]],
                   seen_elements)
             else if name_of element = ''li'' then (lines @ [''- '' @ text], seen_elements)
             else if name_of element = ''blockquote'' then (lines @ [''> '' @ text], seen_elements)
             else (lines @ [text], seen_elements))"

definition elements_of :: "node \<Rightarrow> (nat list \<times> string \<times> node) list" where
  \<comment> \<open>\<open>main_content.find_all([...])\<close>, each element with its path and the name of its parent\<close>
  "elements_of mc = filter (\<lambda>(p, pn, e). is_tag block_names e) (walk [] mc)"

definition extract_lines :: "node \<Rightarrow> string list" where
  "extract_lines mc = fst (fold process_element (elements_of mc) ([], {}))"

definition extract_from :: "node \<Rightarrow> string" where
  \<comment> \<open>\<open>extract_text\<close> from the choice of \<open>main_content\<close> on, on the cleaned copy\<close>
  "extract_from soup =
     (let mc = main_content soup;
          lines = extract_lines mc
      in if lines = [] then collapse_newlines 0 (get_text [newline] True mc)
         else join [newline] lines)"

text \<open>
  \<open>extract_text\<close>. The first statement, \<open>soup = BeautifulSoup(str(soup), "lxml")\<close>, makes a new
  document from the text of the one passed in; \<open>reparse\<close> is that serialisation and parse,
  the work of the HTML library. The new document is allocated at the end of the heap, and
  the two removal loops change it there.
\<close>

definition extract_text :: "(node \<Rightarrow> node) \<Rightarrow> nat \<Rightarrow> node list \<Rightarrow> string \<times> node list" where
  "extract_text reparse soup heap =
     (let copy = length heap;
          heap1 = heap @ [reparse (heap ! soup)];
          heap2 = heap1[copy := remove_nodes (is_tag unwanted) (heap1 ! copy)];
          heap3 = heap2[copy := remove_nodes is_comment (heap2 ! copy)]
      in (extract_from (heap3 ! copy), heap3))"

section \<open>extract_internal_links\<close>

definition skip_extensions :: "string list" where
  "skip_extensions = [''.pdf'', ''.jpg'', ''.jpeg'', ''.png'', ''.gif'', ''.svg'', ''.webp'',
                      ''.mp3'', ''.mp4'', ''.avi'', ''.mov'', ''.zip'', ''.rar'', ''.exe'',
                      ''.doc'', ''.docx'', ''.xls'', ''.xlsx'', ''.ppt'', ''.pptx'']"

text \<open>
  The loop over the anchors, on the list \<open>links\<close> and the set \<open>seen_urls\<close>. \<open>urljoin\<close> is the
  function of \<open>urllib.parse\<close> and a parameter of the model; like \<open>urlparse\<close> it can raise
  \<open>ValueError\<close>.
\<close>

fun links_loop ::
  "(string \<Rightarrow> bool) \<Rightarrow> (string \<Rightarrow> string \<Rightarrow> error + string) \<Rightarrow> string \<Rightarrow> string \<Rightarrow> string option
     \<Rightarrow> node list \<Rightarrow> link list \<times> string set \<Rightarrow> error + link list" where
  "links_loop bh urljoin base_url base_domain path_prefix [] (links, seen_urls) = Inr links"
| "links_loop bh urljoin base_url base_domain path_prefix (a_tag # rest) (links, seen_urls) =
     (case get_attr a_tag ''href'' of
        None \<Rightarrow> Inl KeyError
      | Some href \<Rightarrow>
          (case urljoin base_url href of
             Inl e \<Rightarrow> Inl e
           | Inr full_url \<Rightarrow>
               (case urlparse bh full_url of
                  None \<Rightarrow> Inl ValueError
                | Some parsed_url \<Rightarrow>
                    if scheme parsed_url \<notin> {''http'', ''https''}
                    then links_loop bh urljoin base_url base_domain path_prefix rest (links, seen_urls)
                    else if netloc parsed_url \<noteq> base_domain
                    then links_loop bh urljoin base_url base_domain path_prefix rest (links, seen_urls)
                    else if (case path_prefix of None \<Rightarrow> False
                             | Some p \<Rightarrow> p \<noteq> [] \<and> \<not> startswith (path parsed_url) p)
                    then links_loop bh urljoin base_url base_domain path_prefix rest (links, seen_urls)
                    else
                      let clean_url0 = scheme parsed_url @ ''://'' @ netloc parsed_url @ path parsed_url;
                          clean_url = (if query parsed_url \<noteq> []
                                       then clean_url0 @ ''?'' @ query parsed_url else clean_url0);
                          path_lower = lower (path parsed_url)
                      in if list_ex (\<lambda>ext. endswith path_lower ext) skip_extensions
                         then links_loop bh urljoin base_url base_domain path_prefix rest (links, seen_urls)
                         else if clean_url \<in> seen_urls
                         then links_loop bh urljoin base_url base_domain path_prefix rest (links, seen_urls)
                         else
                           let t = get_text [] True a_tag;
                               link_text = (if t \<noteq> [] then t else path parsed_url)
                           in links_loop bh urljoin base_url base_domain path_prefix rest
                                (links @ [\<lparr>link_url = clean_url, link_text = link_text\<rparr>],
                                 insert clean_url seen_urls))))"

definition extract_internal_links ::
  "(string \<Rightarrow> bool) \<Rightarrow> (string \<Rightarrow> string \<Rightarrow> error + string) \<Rightarrow> node \<Rightarrow> string \<Rightarrow> string option
     \<Rightarrow> error + link list" where
  "extract_internal_links bh urljoin soup base_url path_prefix =
     (case urlparse bh base_url of
        None \<Rightarrow> Inl ValueError
      | Some parsed_base \<Rightarrow>
          links_loop bh urljoin base_url (netloc parsed_base) path_prefix
            (find_all (\<lambda>n. is_tag [''a''] n \<and> get_attr n ''href'' \<noteq> None) soup) ([], {}))"

section \<open>scrape_page\<close>

text \<open>
  \<open>scrape_page\<close> fetches a page, by HTTP or with the browser, and parses it; then it takes the
  title, the text and the links from the document. The fetch is the parameter \<open>fetch\<close>: the
  document that the branches of the \<open>try\<close> block leave in \<open>soup\<close>, or \<open>None\<close> when they
  raise. An exception anywhere in the \<open>try\<close> block gives the result \<open>("", "", [], False)\<close>.
\<close>

definition scrape_page ::
  "(string \<Rightarrow> bool) \<Rightarrow> (string \<Rightarrow> string \<Rightarrow> error + string) \<Rightarrow> (node \<Rightarrow> node)
     \<Rightarrow> (string \<Rightarrow> string option \<Rightarrow> node option) \<Rightarrow> string option
     \<Rightarrow> string \<Rightarrow> string option \<Rightarrow> scrape_result" where
  "scrape_page bh urljoin reparse fetch path_prefix url referer =
     (case fetch url referer of
        None \<Rightarrow> ([], [], [], False)
      | Some soup \<Rightarrow>
          let title = get_page_title soup;
              content = fst (extract_text reparse 0 [soup])
          in (case extract_internal_links bh urljoin soup url path_prefix of
                Inl e \<Rightarrow> ([], [], [], False)
              | Inr links \<Rightarrow> (title, content, links, True)))"

section \<open>What one iteration does\<close>

text \<open>
  The canonical URL of a link, when \<open>normalize_url\<close> returns one.
\<close>

definition canonical :: "(string \<Rightarrow> bool) \<Rightarrow> link \<Rightarrow> string" where
  "canonical bh l = (case normalize_url bh (link_url l) of Inr n \<Rightarrow> n | Inl e \<Rightarrow> [])"

text \<open>
  The checks of the loop between the visited test and \<open>visited.add(url)\<close>: the host of
  the URL is the host of the start URL, and its path starts with the prefix when one is given.
  \<open>depth_permits\<close> is the test \<open>max_depth is None or depth < max_depth\<close>.
\<close>

definition passes_checks :: "(string \<Rightarrow> bool) \<Rightarrow> string \<Rightarrow> string option \<Rightarrow> string \<Rightarrow> bool" where
  "passes_checks bh base_domain path_prefix url =
     (case urlparse bh url of
        None \<Rightarrow> False
      | Some parsed \<Rightarrow>
          netloc parsed = base_domain \<and>
          \<not> (case path_prefix of None \<Rightarrow> False
             | Some p \<Rightarrow> p \<noteq> [] \<and> \<not> startswith (path parsed) p))"

definition depth_permits :: "int option \<Rightarrow> int \<Rightarrow> bool" where
  "depth_permits max_depth depth = (case max_depth of None \<Rightarrow> True | Some m \<Rightarrow> depth < m)"

text \<open>
  The URLs that were dequeued and passed the checks, in the order of the log: the visited
  test never fails (\<open>queue_inv\<close> below), so these are the URLs handed to \<open>scrape_page\<close>.
\<close>

definition scraped_urls :: "(string \<Rightarrow> bool) \<Rightarrow> string \<Rightarrow> string option \<Rightarrow> crawl_state \<Rightarrow> string list" where
  "scraped_urls bh base_domain path_prefix s =
     filter (passes_checks bh base_domain path_prefix) (map fst (dequeued s))"

definition queue_inv :: "(string \<Rightarrow> bool) \<Rightarrow> string \<Rightarrow> string option \<Rightarrow> crawl_state \<Rightarrow> bool" where
  "queue_inv bh bd pp t =
     (distinct (map fst (to_visit t)) \<and> fst ` set (to_visit t) \<inter> visited t = {} \<and>
      set (scraped_urls bh bd pp t) = visited t \<and> distinct (scraped_urls bh bd pp t))"

text \<open>
  The links of a page that the loop \<open>for link in links\<close> queues: those whose canonical URL
  is not in \<open>seen\<close> (visited or pending), each canonical URL once.
\<close>

fun fresh_links :: "(string \<Rightarrow> bool) \<Rightarrow> string set \<Rightarrow> link list \<Rightarrow> link list" where
  "fresh_links bh seen [] = []"
| "fresh_links bh seen (l # ls) =
     (if canonical bh l \<in> seen then fresh_links bh seen ls
      else l # fresh_links bh (insert (canonical bh l) seen) ls)"

text \<open>
  The invariant of a run with \<open>max_depth = 1\<close>: the queue holds the start entry and entries
  of depth 1 for links of the start page; every page is the start page or such a link.
\<close>

definition depth1_inv :: "(string \<Rightarrow> bool) \<Rightarrow> string \<Rightarrow> link list \<Rightarrow> crawl_state \<Rightarrow> bool" where
  "depth1_inv bh start links0 t =
     ((\<forall>e\<in>set (to_visit t). e = (start, 0, None) \<or>
          (fst (snd e) = 1 \<and> (\<exists>l\<in>set links0. normalize_url bh (link_url l) = Inr (fst e)))) \<and>
      (\<forall>p\<in>set (pages t). page_url p = start \<or>
          (\<exists>l\<in>set links0. normalize_url bh (link_url l) = Inr (page_url p))))"

lemma enqueue_links_new:
  assumes "enqueue_links bh url depth ls s = Inr s'"
  shows "\<exists>new. all_links s' = all_links s @ new \<and>
           to_visit s' = to_visit s @ map (\<lambda>l. (canonical bh l, depth + 1, Some url)) new \<and>
           set new \<subseteq> set ls \<and>
           (\<forall>l\<in>set new. normalize_url bh (link_url l) = Inr (canonical bh l) \<and>
                canonical bh l \<notin> visited s \<and> canonical bh l \<notin> fst ` set (to_visit s)) \<and>
           distinct (map (canonical bh) new)"
  using assms
proof (induction ls arbitrary: s)
  case Nil
  then show ?case by simp
next
  case (Cons l ls)
  from Cons.prems obtain n where n: "normalize_url bh (link_url l) = Inr n"
    by (auto split: sum.splits)
  then have c: "canonical bh l = n" by (simp add: canonical_def)
  show ?case
  proof (cases "n \<notin> visited s \<and> n \<notin> set (map fst (to_visit s))")
    case True
    let ?s1 = "s\<lparr>to_visit := to_visit s @ [(n, depth + 1, Some url)], all_links := all_links s @ [l]\<rparr>"
    from Cons.prems n True have "enqueue_links bh url depth ls ?s1 = Inr s'" by simp
    from Cons.IH [OF this] obtain new where new: "all_links s' = all_links ?s1 @ new"
      "to_visit s' = to_visit ?s1 @ map (\<lambda>l. (canonical bh l, depth + 1, Some url)) new"
      "set new \<subseteq> set ls"
      "\<forall>l\<in>set new. normalize_url bh (link_url l) = Inr (canonical bh l) \<and>
                canonical bh l \<notin> visited ?s1 \<and> canonical bh l \<notin> fst ` set (to_visit ?s1)"
      "distinct (map (canonical bh) new)"
      by blast
    have "all_links s' = all_links s @ (l # new)" using new(1) by simp
    moreover have "to_visit s' = to_visit s @ map (\<lambda>l. (canonical bh l, depth + 1, Some url)) (l # new)"
      using new(2) c by simp
    moreover have "set (l # new) \<subseteq> set (l # ls)" using new(3) by auto
    moreover have "\<forall>l'\<in>set (l # new). normalize_url bh (link_url l') = Inr (canonical bh l') \<and>
                canonical bh l' \<notin> visited s \<and> canonical bh l' \<notin> fst ` set (to_visit s)"
      using new(4) True n c by auto
    moreover have "distinct (map (canonical bh) (l # new))"
      using new(4,5) c by force
    ultimately show ?thesis by blast
  next
    case False
    from Cons.prems have "enqueue_links bh url depth ls s = Inr s'"
      by (simp only: enqueue_links.simps n sum.case if_not_P [OF False])
    from Cons.IH [OF this] show ?thesis by auto
  qed
qed


lemma crawl_iteration_cases [consumes 1, case_names discard no_page page_only page_links]:
  assumes "crawl_iteration bh sp md pp bd s = Inr s'"
  obtains
    (discard) url depth referer rest where
      "to_visit s = (url, depth, referer) # rest"
      "url \<in> visited s \<or> \<not> passes_checks bh bd pp url"
      "s' = s\<lparr>to_visit := rest, dequeued := dequeued s @ [(url, depth, referer)]\<rparr>"
  | (no_page) url depth referer rest title content links success where
      "to_visit s = (url, depth, referer) # rest"
      "url \<notin> visited s" "passes_checks bh bd pp url"
      "sp url referer = (title, content, links, success)"
      "\<not> (success \<and> strip content \<noteq> [])"
      "s' = s\<lparr>to_visit := rest, dequeued := dequeued s @ [(url, depth, referer)],
               visited := insert url (visited s)\<rparr>"
  | (page_only) url depth referer rest title content links where
      "to_visit s = (url, depth, referer) # rest"
      "url \<notin> visited s" "passes_checks bh bd pp url"
      "sp url referer = (title, content, links, True)"
      "strip content \<noteq> []" "\<not> depth_permits md depth"
      "s' = s\<lparr>to_visit := rest, dequeued := dequeued s @ [(url, depth, referer)],
               visited := insert url (visited s),
               pages := pages s @ [\<lparr>page_url = url, page_title = title, page_content = content\<rparr>]\<rparr>"
  | (page_links) url depth referer rest title content links where
      "to_visit s = (url, depth, referer) # rest"
      "url \<notin> visited s" "passes_checks bh bd pp url"
      "sp url referer = (title, content, links, True)"
      "strip content \<noteq> []" "depth_permits md depth"
      "enqueue_links bh url depth links
         (s\<lparr>to_visit := rest, dequeued := dequeued s @ [(url, depth, referer)],
            visited := insert url (visited s),
            pages := pages s @ [\<lparr>page_url = url, page_title = title, page_content = content\<rparr>]\<rparr>)
       = Inr s'"
proof -
  from assms obtain url depth referer rest where tv: "to_visit s = (url, depth, referer) # rest"
    by (cases "to_visit s") (auto simp: crawl_iteration_def)
  let ?s1 = "s\<lparr>to_visit := rest, dequeued := dequeued s @ [(url, depth, referer)]\<rparr>"
  show thesis
  proof (cases "url \<in> visited s \<or> \<not> passes_checks bh bd pp url")
    case True
    with assms tv have "s' = ?s1"
      by (auto simp: crawl_iteration_def passes_checks_def Let_def split: option.splits if_splits)
    with tv True show thesis by (rule discard)
  next
    case False
    then have nv: "url \<notin> visited s" and pc: "passes_checks bh bd pp url" by auto
    obtain title content links success where sc: "sp url referer = (title, content, links, success)"
      by (cases "sp url referer") auto
    let ?s2 = "?s1\<lparr>visited := insert url (visited s)\<rparr>"
    let ?s3 = "?s2\<lparr>pages := pages s @ [\<lparr>page_url = url, page_title = title, page_content = content\<rparr>]\<rparr>"
    from pc obtain parsed where parsed: "urlparse bh url = Some parsed" "netloc parsed = bd"
      "\<not> (case pp of None \<Rightarrow> False | Some p \<Rightarrow> p \<noteq> [] \<and> \<not> startswith (path parsed) p)"
      by (auto simp: passes_checks_def split: option.splits)
    have body: "crawl_iteration bh sp md pp bd s =
        (if success \<and> strip content \<noteq> []
         then if depth_permits md depth then enqueue_links bh url depth links ?s3 else Inr ?s3
         else Inr ?s2)"
      using tv nv parsed sc by (simp add: crawl_iteration_def Let_def depth_permits_def)
    show thesis
    proof (cases "success \<and> strip content \<noteq> []")
      case False
      with body assms have "s' = ?s2" by simp
      with tv nv pc sc False show thesis by (rule no_page)
    next
      case True
      then have succ: "success" and ne: "strip content \<noteq> []" by auto
      from sc succ have sc': "sp url referer = (title, content, links, True)" by simp
      show thesis
      proof (cases "depth_permits md depth")
        case True
        with body assms succ ne have "enqueue_links bh url depth links ?s3 = Inr s'" by simp
        with tv nv pc sc' ne True show thesis by (rule page_links)
      next
        case False
        with body assms succ ne have "s' = ?s3" by simp
        with tv nv pc sc' ne False show thesis by (rule page_only)
      qed
    qed
  qed
qed


lemma enqueue_links_queue:
  assumes "enqueue_links bh url depth ls s = Inr s'"
    and "distinct (map fst (to_visit s))" and "fst ` set (to_visit s) \<inter> visited s = {}"
  shows "distinct (map fst (to_visit s')) \<and> fst ` set (to_visit s') \<inter> visited s' = {}"
proof -
  from enqueue_links_new [OF assms(1)] obtain new where new:
    "to_visit s' = to_visit s @ map (\<lambda>l. (canonical bh l, depth + 1, Some url)) new"
    "\<forall>l\<in>set new. normalize_url bh (link_url l) = Inr (canonical bh l) \<and>
        canonical bh l \<notin> visited s \<and> canonical bh l \<notin> fst ` set (to_visit s)"
    "distinct (map (canonical bh) new)"
    by blast
  have m: "map fst (to_visit s') = map fst (to_visit s) @ map (canonical bh) new"
    using new(1) by (simp add: comp_def)
  have v: "visited s' = visited s" using assms(1) by (rule enqueue_links_visited)
  have "distinct (map fst (to_visit s'))"
    unfolding m using assms(2) new(2,3) by (auto simp: image_iff) force
  moreover have "fst ` set (to_visit s') \<inter> visited s' = {}"
  proof -
    have "fst ` set (to_visit s') = set (map fst (to_visit s'))" by simp
    also have "\<dots> = fst ` set (to_visit s) \<union> canonical bh ` set new" unfolding m by auto
    finally show ?thesis using assms(3) new(2) v by auto
  qed
  ultimately show ?thesis by simp
qed

lemma crawl_iteration_queue_inv:
  assumes "crawl_iteration bh sp md pp bd s = Inr s'" and "queue_inv bh bd pp s"
  shows "queue_inv bh bd pp s'"
  using assms(1)
proof (cases rule: crawl_iteration_cases)
  case (discard url depth referer rest)
  from assms(2) discard(1) have "url \<notin> visited s" by (auto simp: queue_inv_def)
  with discard assms(2) show ?thesis
    by (auto simp: queue_inv_def scraped_urls_def)
next
  case (no_page url depth referer rest title content links success)
  with assms(2) show ?thesis
    by (auto simp: queue_inv_def scraped_urls_def)
next
  case (page_only url depth referer rest title content links)
  with assms(2) show ?thesis
    by (auto simp: queue_inv_def scraped_urls_def)
next
  case (page_links url depth referer rest title content links)
  let ?s3 = "s\<lparr>to_visit := rest, dequeued := dequeued s @ [(url, depth, referer)],
            visited := insert url (visited s),
            pages := pages s @ [\<lparr>page_url = url, page_title = title, page_content = content\<rparr>]\<rparr>"
  have q3: "queue_inv bh bd pp ?s3"
    using page_links(1-3) assms(2) by (auto simp: queue_inv_def scraped_urls_def)
  from enqueue_links_queue [OF page_links(7)] q3
  have "distinct (map fst (to_visit s')) \<and> fst ` set (to_visit s') \<inter> visited s' = {}"
    by (simp add: queue_inv_def)
  moreover have "visited s' = visited ?s3" "dequeued s' = dequeued ?s3"
    using page_links(7) by (rule enqueue_links_visited, rule enqueue_links_dequeued)
  ultimately show ?thesis using q3 by (simp add: queue_inv_def scraped_urls_def)
qed


lemma crawl_run_loop:
  assumes "crawl_run bh sp start_url mp md pp = Inr s'"
  obtains start parsed_start where "normalize_url bh start_url = Inr start"
    "urlparse bh start_url = Some parsed_start"
    "crawl_loop bh sp mp md pp (netloc parsed_start)
       \<lparr>visited = {}, to_visit = [(start, 0, None)], pages = [], all_links = [], dequeued = []\<rparr>
     = Inr s'"
  using assms by (auto simp: crawl_run_def split: sum.splits option.splits)

lemma enqueue_links_fresh:
  assumes "enqueue_links bh url depth ls s = Inr s'"
  shows "all_links s' = all_links s @ fresh_links bh (visited s \<union> fst ` set (to_visit s)) ls \<and>
         to_visit s' = to_visit s @ map (\<lambda>l. (canonical bh l, depth + 1, Some url))
                          (fresh_links bh (visited s \<union> fst ` set (to_visit s)) ls)"
  using assms
proof (induction ls arbitrary: s)
  case Nil
  then show ?case by simp
next
  case (Cons l ls)
  from Cons.prems obtain n where n: "normalize_url bh (link_url l) = Inr n"
    by (auto split: sum.splits)
  then have c: "canonical bh l = n" by (simp add: canonical_def)
  show ?case
  proof (cases "n \<notin> visited s \<and> n \<notin> set (map fst (to_visit s))")
    case True
    let ?s1 = "s\<lparr>to_visit := to_visit s @ [(n, depth + 1, Some url)], all_links := all_links s @ [l]\<rparr>"
    from Cons.prems n True have "enqueue_links bh url depth ls ?s1 = Inr s'" by simp
    from Cons.IH [OF this]
    have "all_links s' = all_links ?s1 @ fresh_links bh (visited ?s1 \<union> fst ` set (to_visit ?s1)) ls"
      and "to_visit s' = to_visit ?s1 @ map (\<lambda>l. (canonical bh l, depth + 1, Some url))
                          (fresh_links bh (visited ?s1 \<union> fst ` set (to_visit ?s1)) ls)"
      by simp_all
    moreover have "visited ?s1 \<union> fst ` set (to_visit ?s1) =
                   insert n (visited s \<union> fst ` set (to_visit s))" by auto
    moreover have "n \<notin> visited s \<union> fst ` set (to_visit s)" using True by auto
    ultimately show ?thesis using c by simp
  next
    case False
    from Cons.prems have "enqueue_links bh url depth ls s = Inr s'"
      by (simp only: enqueue_links.simps n sum.case if_not_P [OF False])
    from Cons.IH [OF this] False c show ?thesis by auto
  qed
qed

lemma crawl_iteration_depth1:
  assumes "crawl_iteration bh sp (Some 1) pp bd s = Inr s'"
    and "sp start None = (title0, content0, links0, success0)"
    and "depth1_inv bh start links0 s"
  shows "depth1_inv bh start links0 s'"
  using assms(1)
proof (cases rule: crawl_iteration_cases)
  case (discard url depth referer rest)
  with assms(3) show ?thesis by (auto simp: depth1_inv_def)
next
  case (no_page url depth referer rest title content links success)
  with assms(3) show ?thesis by (auto simp: depth1_inv_def)
next
  case (page_only url depth referer rest title content links)
  with assms(3) show ?thesis by (auto simp: depth1_inv_def)
next
  case (page_links url depth referer rest title content links)
  from page_links(6) have "depth < 1" by (simp add: depth_permits_def)
  with assms(3) page_links(1) have hd: "url = start" "depth = 0" "referer = None"
    by (auto simp: depth1_inv_def)
  with page_links(4) assms(2) have l0: "links = links0" by simp
  let ?s3 = "s\<lparr>to_visit := rest, dequeued := dequeued s @ [(url, depth, referer)],
            visited := insert url (visited s),
            pages := pages s @ [\<lparr>page_url = url, page_title = title, page_content = content\<rparr>]\<rparr>"
  from enqueue_links_new [OF page_links(7)] obtain new where new:
    "to_visit s' = to_visit ?s3 @ map (\<lambda>l. (canonical bh l, depth + 1, Some url)) new"
    "set new \<subseteq> set links"
    "\<forall>l\<in>set new. normalize_url bh (link_url l) = Inr (canonical bh l) \<and>
        canonical bh l \<notin> visited ?s3 \<and> canonical bh l \<notin> fst ` set (to_visit ?s3)"
    by blast
  have pg: "pages s' = pages ?s3" using page_links(7) by (rule enqueue_links_pages)
  have "\<forall>e\<in>set (to_visit s'). e = (start, 0, None) \<or>
          (fst (snd e) = 1 \<and> (\<exists>l\<in>set links0. normalize_url bh (link_url l) = Inr (fst e)))"
  proof
    fix e assume "e \<in> set (to_visit s')"
    then consider "e \<in> set rest" | l where "l \<in> set new" "e = (canonical bh l, depth + 1, Some url)"
      using new(1) by auto
    then show "e = (start, 0, None) \<or>
          (fst (snd e) = 1 \<and> (\<exists>l\<in>set links0. normalize_url bh (link_url l) = Inr (fst e)))"
    proof cases
      case 1
      with assms(3) page_links(1) show ?thesis by (auto simp: depth1_inv_def)
    next
      case 2
      with new(2,3) l0 hd show ?thesis by auto
    qed
  qed
  moreover have "\<forall>p\<in>set (pages s'). page_url p = start \<or>
          (\<exists>l\<in>set links0. normalize_url bh (link_url l) = Inr (page_url p))"
    using pg assms(3) hd by (auto simp: depth1_inv_def)
  ultimately show ?thesis by (simp add: depth1_inv_def)
qed

section \<open>Pages with empty content\<close>

lemma crawl_iteration_content:
  assumes "crawl_iteration bh sp md pp bd s = Inr s'"
    and "\<forall>p\<in>set (pages s). strip (page_content p) \<noteq> []"
  shows "\<forall>p\<in>set (pages s'). strip (page_content p) \<noteq> []"
  using assms
  by (auto simp: crawl_iteration_def Let_def
           split: list.splits option.splits if_splits prod.splits
           dest!: enqueue_links_pages)

lemma crawl_loop_content:
  assumes "crawl_loop bh sp mp md pp bd s = Inr s'"
    and "\<forall>p\<in>set (pages s). strip (page_content p) \<noteq> []"
  shows "\<forall>p\<in>set (pages s'). strip (page_content p) \<noteq> []"
proof (rule crawl_loop_invariant [OF assms(1), where I = "\<lambda>t. \<forall>p\<in>set (pages t). strip (page_content p) \<noteq> []"])
  show "\<forall>p\<in>set (pages s). strip (page_content p) \<noteq> []" by (rule assms(2))
next
  fix t t'
  assume "\<forall>p\<in>set (pages t). strip (page_content p) \<noteq> []"
    and "crawl_iteration bh sp md pp bd t = Inr t'"
  then show "\<forall>p\<in>set (pages t'). strip (page_content p) \<noteq> []"
    using crawl_iteration_content by blast
qed

lemma crawl_iteration_empty_content:
  assumes "to_visit s = (url, depth, referer) # rest" and "url \<notin> visited s"
    and "urlparse bh url = Some parsed" and "netloc parsed = bd"
    and "\<not> (case pp of None \<Rightarrow> False | Some p \<Rightarrow> p \<noteq> [] \<and> \<not> startswith (path parsed) p)"
    and "sp url referer = (title, content, links, success)" and "strip content = []"
  shows "crawl_iteration bh sp md pp bd s =
           Inr (s\<lparr>to_visit := rest, dequeued := dequeued s @ [(url, depth, referer)],
                   visited := insert url (visited s)\<rparr>)"
  using assms by (simp add: crawl_iteration_def Let_def)

text \<open>
  A small site for running the loop: a home page that links to \<open>/a\<close> and \<open>/b/\<close>; \<open>/a\<close> is
  fetched but has only white space as content; \<open>/b\<close> links back to the home page.
\<close>

definition site1 :: "string \<Rightarrow> string option \<Rightarrow> scrape_result" where
  "site1 u r =
     (if u = ''https://ex.com''
      then (''Home'', ''hello'',
            [\<lparr>link_url = ''https://ex.com/a'', link_text = ''a''\<rparr>,
             \<lparr>link_url = ''https://ex.com/b/'', link_text = ''b''\<rparr>], True)
      else if u = ''https://ex.com/a'' then (''A'', ''  '', [], True)
      else if u = ''https://ex.com/b''
      then (''B'', ''bee'', [\<lparr>link_url = ''https://ex.com/'', link_text = ''home''\<rparr>], True)
      else ([], [], [], False))"

text \<open>
  C6. Every page that \<open>crawl\<close> returns has content that is not empty after \<open>strip()\<close>. When
  the entry at the head of the queue passes the checks and its scrape succeeds with content
  that is empty after \<open>strip()\<close>, the iteration appends no page and the loop goes on with the
  rest of the queue: only the queue, the visited set and the log change.
\<close>

theorem crawl_empty_content_page:
  "(crawl bh sp start_url max_pages md pp = Inr (ps, ls) \<longrightarrow>
      (\<forall>p\<in>set ps. strip (page_content p) \<noteq> []))
   \<and> (to_visit s = (url, depth, referer) # rest \<and> int (length (pages s)) < max_pages \<and>
      url \<notin> visited s \<and> urlparse bh url = Some parsed \<and> netloc parsed = bd \<and>
      \<not> (case pp of None \<Rightarrow> False | Some p \<Rightarrow> p \<noteq> [] \<and> \<not> startswith (path parsed) p) \<and>
      sp url referer = (title, content, links, True) \<and> strip content = [] \<longrightarrow>
      crawl_loop bh sp max_pages md pp bd s =
        crawl_loop bh sp max_pages md pp bd
          (s\<lparr>to_visit := rest, dequeued := dequeued s @ [(url, depth, referer)],
             visited := insert url (visited s)\<rparr>))"
proof (intro conjI impI)
  assume "crawl bh sp start_url max_pages md pp = Inr (ps, ls)"
  then obtain s0 bd0 s' where "crawl_loop bh sp max_pages md pp bd0 s0 = Inr s'"
    and "pages s0 = []" and "ps = pages s'"
    by (auto simp: crawl_def crawl_run_def split: sum.splits option.splits)
  then show "\<forall>p\<in>set ps. strip (page_content p) \<noteq> []"
    using crawl_loop_content [of bh sp max_pages md pp bd0 s0 s'] by simp
next
  assume h: "to_visit s = (url, depth, referer) # rest \<and> int (length (pages s)) < max_pages \<and>
      url \<notin> visited s \<and> urlparse bh url = Some parsed \<and> netloc parsed = bd \<and>
      \<not> (case pp of None \<Rightarrow> False | Some p \<Rightarrow> p \<noteq> [] \<and> \<not> startswith (path parsed) p) \<and>
      sp url referer = (title, content, links, True) \<and> strip content = []"
  then have "crawl_iteration bh sp md pp bd s =
           Inr (s\<lparr>to_visit := rest, dequeued := dequeued s @ [(url, depth, referer)],
                   visited := insert url (visited s)\<rparr>)"
    by (intro crawl_iteration_empty_content) auto
  with h show "crawl_loop bh sp max_pages md pp bd s =
        crawl_loop bh sp max_pages md pp bd
          (s\<lparr>to_visit := rest, dequeued := dequeued s @ [(url, depth, referer)],
             visited := insert url (visited s)\<rparr>)"
    by (subst crawl_loop.simps) simp
qed


theorem crawl_empty_content_page_witness:
  "crawl (\<lambda>_. True) site1 ''https://ex.com/'' 10 None None =
     Inr ([\<lparr>page_url = ''https://ex.com'', page_title = ''Home'', page_content = ''hello''\<rparr>,
           \<lparr>page_url = ''https://ex.com/b'', page_title = ''B'', page_content = ''bee''\<rparr>],
          [\<lparr>link_url = ''https://ex.com/a'', link_text = ''a''\<rparr>,
           \<lparr>link_url = ''https://ex.com/b/'', link_text = ''b''\<rparr>])
   \<and> strip ''hello'' \<noteq> [] \<and> strip ''bee'' \<noteq> []
   \<and> site1 ''https://ex.com/a'' (Some ''https://ex.com'') = (''A'', ''  '', [], True)
   \<and> strip ''  '' = []
   \<and> crawl_loop (\<lambda>_. True) site1 10 None None ''ex.com''
         \<lparr>visited = {''https://ex.com''},
          to_visit = [(''https://ex.com/a'', 1, Some ''https://ex.com''),
                      (''https://ex.com/b'', 1, Some ''https://ex.com'')],
          pages = [\<lparr>page_url = ''https://ex.com'', page_title = ''Home'', page_content = ''hello''\<rparr>],
          all_links = [], dequeued = [(''https://ex.com'', 0, None)]\<rparr>
     = crawl_loop (\<lambda>_. True) site1 10 None None ''ex.com''
         \<lparr>visited = {''https://ex.com/a'', ''https://ex.com''},
          to_visit = [(''https://ex.com/b'', 1, Some ''https://ex.com'')],
          pages = [\<lparr>page_url = ''https://ex.com'', page_title = ''Home'', page_content = ''hello''\<rparr>],
          all_links = [],
          dequeued = [(''https://ex.com'', 0, None), (''https://ex.com/a'', 1, Some ''https://ex.com'')]\<rparr>"
proof -
  let ?bh = "\<lambda>_::string. True"
  let ?ps = "[\<lparr>page_url = ''https://ex.com'', page_title = ''Home'', page_content = ''hello''\<rparr>,
              \<lparr>page_url = ''https://ex.com/b'', page_title = ''B'', page_content = ''bee''\<rparr>]"
  let ?ls = "[\<lparr>link_url = ''https://ex.com/a'', link_text = ''a''\<rparr>,
              \<lparr>link_url = ''https://ex.com/b/'', link_text = ''b''\<rparr>]"
  let ?s = "\<lparr>visited = {''https://ex.com''},
          to_visit = [(''https://ex.com/a'', 1, Some ''https://ex.com''),
                      (''https://ex.com/b'', 1, Some ''https://ex.com'')],
          pages = [\<lparr>page_url = ''https://ex.com'', page_title = ''Home'', page_content = ''hello''\<rparr>],
          all_links = [], dequeued = [(''https://ex.com'', 0, None)]\<rparr>"
  let ?parsed = "\<lparr>scheme = ''https'', netloc = ''ex.com'', path = ''/a'', params = [],
                  query = [], fragment = []\<rparr>"
  have run: "crawl ?bh site1 ''https://ex.com/'' 10 None None = Inr (?ps, ?ls)"
    by code_simp
  have parsed: "urlparse ?bh ''https://ex.com/a'' = Some ?parsed"
    by code_simp
  have page_a: "site1 ''https://ex.com/a'' (Some ''https://ex.com'') = (''A'', ''  '', [], True)"
    by (simp add: site1_def)
  have blank: "strip ''  '' = []"
    by code_simp
  note inst = crawl_empty_content_page
    [where bh = ?bh and sp = site1 and start_url = "''https://ex.com/''" and max_pages = 10
       and md = None and pp = None and ps = ?ps and ls = ?ls and s = ?s
       and url = "''https://ex.com/a''" and depth = 1 and referer = "Some ''https://ex.com''"
       and rest = "[(''https://ex.com/b'', 1, Some ''https://ex.com'')]"
       and parsed = ?parsed and bd = "''ex.com''" and title = "''A''" and content = "''  ''"
       and links = "[]"]
  from inst run have a: "strip ''hello'' \<noteq> [] \<and> strip ''bee'' \<noteq> []"
    by simp
  from inst parsed page_a blank
  have b: "crawl_loop ?bh site1 10 None None ''ex.com'' ?s =
           crawl_loop ?bh site1 10 None None ''ex.com''
             (?s\<lparr>to_visit := [(''https://ex.com/b'', 1, Some ''https://ex.com'')],
                 dequeued := dequeued ?s @ [(''https://ex.com/a'', 1, Some ''https://ex.com'')],
                 visited := insert ''https://ex.com/a'' (visited ?s)\<rparr>)"
    by simp
  from run a page_a blank b show ?thesis by simp
qed

section \<open>Links recorded in all_links\<close>

text \<open>
  C3 (where the code departs from it). The docstring of \<open>crawl\<close> promises the list of all
  links found, and the claim says the same. The loop records less: for a page that is
  scraped with success and non-empty content at a depth that permits queueing, the iteration
  appends to \<open>all_links\<close> exactly the links for which it appends an entry to the queue, those
  whose canonical URL is neither visited (the page itself included) nor pending, each
  canonical URL once. A link whose canonical URL is already visited or pending is left out
  of \<open>all_links\<close>.
\<close>

theorem crawl_records_queued_links:
  assumes "to_visit s = (url, depth, referer) # rest" and "url \<notin> visited s"
    and "passes_checks bh bd pp url"
    and "sp url referer = (title, content, links, True)" and "strip content \<noteq> []"
    and "depth_permits md depth"
    and "crawl_iteration bh sp md pp bd s = Inr s'"
  shows "all_links s' = all_links s @
            fresh_links bh (insert url (visited s) \<union> fst ` set rest) links \<and>
         to_visit s' = rest @ map (\<lambda>l. (canonical bh l, depth + 1, Some url))
            (fresh_links bh (insert url (visited s) \<union> fst ` set rest) links)"
  using assms(7)
proof (cases rule: crawl_iteration_cases)
  case (discard url' depth' referer' rest')
  with assms(1-3) show ?thesis by auto
next
  case (no_page url' depth' referer' rest' title' content' links' success')
  with assms(1,4,5) show ?thesis by auto
next
  case (page_only url' depth' referer' rest' title' content' links')
  with assms(1,6) show ?thesis by auto
next
  case (page_links url' depth' referer' rest' title' content' links')
  with assms(1,4) have eq: "url' = url" "depth' = depth" "referer' = referer" "rest' = rest"
    "links' = links" "title' = title" "content' = content" by auto
  from enqueue_links_fresh [OF page_links(7)] show ?thesis
    unfolding eq by simp
qed


theorem crawl_records_queued_links_witness:
  "crawl_iteration (\<lambda>_. True) site1 None None ''ex.com''
     \<lparr>visited = {''https://ex.com/a'', ''https://ex.com''},
      to_visit = [(''https://ex.com/b'', 1, Some ''https://ex.com'')],
      pages = [\<lparr>page_url = ''https://ex.com'', page_title = ''Home'', page_content = ''hello''\<rparr>],
      all_links = [\<lparr>link_url = ''https://ex.com/a'', link_text = ''a''\<rparr>,
                   \<lparr>link_url = ''https://ex.com/b/'', link_text = ''b''\<rparr>],
      dequeued = [(''https://ex.com'', 0, None), (''https://ex.com/a'', 1, Some ''https://ex.com'')]\<rparr>
   = Inr
     \<lparr>visited = {''https://ex.com/b'', ''https://ex.com/a'', ''https://ex.com''},
      to_visit = [],
      pages = [\<lparr>page_url = ''https://ex.com'', page_title = ''Home'', page_content = ''hello''\<rparr>,
               \<lparr>page_url = ''https://ex.com/b'', page_title = ''B'', page_content = ''bee''\<rparr>],
      all_links = [\<lparr>link_url = ''https://ex.com/a'', link_text = ''a''\<rparr>,
                   \<lparr>link_url = ''https://ex.com/b/'', link_text = ''b''\<rparr>],
      dequeued = [(''https://ex.com'', 0, None), (''https://ex.com/a'', 1, Some ''https://ex.com''),
                  (''https://ex.com/b'', 1, Some ''https://ex.com'')]\<rparr>
   \<and> fresh_links (\<lambda>_. True)
        (insert ''https://ex.com/b'' {''https://ex.com/a'', ''https://ex.com''} \<union> fst ` set [])
        [\<lparr>link_url = ''https://ex.com/'', link_text = ''home''\<rparr>] = []"
proof -
  let ?bh = "\<lambda>_::string. True"
  let ?s = "\<lparr>visited = {''https://ex.com/a'', ''https://ex.com''},
      to_visit = [(''https://ex.com/b'', 1, Some ''https://ex.com'')],
      pages = [\<lparr>page_url = ''https://ex.com'', page_title = ''Home'', page_content = ''hello''\<rparr>],
      all_links = [\<lparr>link_url = ''https://ex.com/a'', link_text = ''a''\<rparr>,
                   \<lparr>link_url = ''https://ex.com/b/'', link_text = ''b''\<rparr>],
      dequeued = [(''https://ex.com'', 0, None), (''https://ex.com/a'', 1, Some ''https://ex.com'')]\<rparr>"
  let ?s' = "\<lparr>visited = {''https://ex.com/b'', ''https://ex.com/a'', ''https://ex.com''},
      to_visit = [],
      pages = [\<lparr>page_url = ''https://ex.com'', page_title = ''Home'', page_content = ''hello''\<rparr>,
               \<lparr>page_url = ''https://ex.com/b'', page_title = ''B'', page_content = ''bee''\<rparr>],
      all_links = [\<lparr>link_url = ''https://ex.com/a'', link_text = ''a''\<rparr>,
                   \<lparr>link_url = ''https://ex.com/b/'', link_text = ''b''\<rparr>],
      dequeued = [(''https://ex.com'', 0, None), (''https://ex.com/a'', 1, Some ''https://ex.com''),
                  (''https://ex.com/b'', 1, Some ''https://ex.com'')]\<rparr>"
  let ?home = "\<lparr>link_url = ''https://ex.com/'', link_text = ''home''\<rparr>"
  have step: "crawl_iteration ?bh site1 None None ''ex.com'' ?s = Inr ?s'"
    by code_simp
  have checks: "passes_checks ?bh ''ex.com'' None ''https://ex.com/b''"
    by code_simp
  have page_b: "site1 ''https://ex.com/b'' (Some ''https://ex.com'') = (''B'', ''bee'', [?home], True)"
    by (simp add: site1_def)
  have content: "strip ''bee'' \<noteq> []"
    by code_simp
  have "all_links ?s' = all_links ?s @
          fresh_links ?bh (insert ''https://ex.com/b'' (visited ?s) \<union> fst ` set []) [?home]"
    using crawl_records_queued_links
      [where s = ?s and s' = ?s' and bh = ?bh and sp = site1 and md = None and pp = None
         and bd = "''ex.com''" and url = "''https://ex.com/b''" and depth = 1
         and referer = "Some ''https://ex.com''" and rest = "[]" and title = "''B''"
         and content = "''bee''" and links = "[?home]", OF _ _ checks page_b content _ step]
    by (simp add: depth_permits_def)
  then have "fresh_links ?bh
        (insert ''https://ex.com/b'' {''https://ex.com/a'', ''https://ex.com''} \<union> fst ` set [])
        [?home] = []"
    by simp
  with step show ?thesis by simp
qed

text \<open>
  On \<open>site1\<close> the page \<open>/b\<close> is scraped with success at a depth that permits queueing, and
  its link to the home page, which is visited, is not in the returned \<open>all_links\<close>.
\<close>

theorem crawl_all_links_counterexample:
  "crawl (\<lambda>_. True) site1 ''https://ex.com/'' 10 None None =
     Inr ([\<lparr>page_url = ''https://ex.com'', page_title = ''Home'', page_content = ''hello''\<rparr>,
           \<lparr>page_url = ''https://ex.com/b'', page_title = ''B'', page_content = ''bee''\<rparr>],
          [\<lparr>link_url = ''https://ex.com/a'', link_text = ''a''\<rparr>,
           \<lparr>link_url = ''https://ex.com/b/'', link_text = ''b''\<rparr>])
   \<and> site1 ''https://ex.com/b'' (Some ''https://ex.com'') =
       (''B'', ''bee'', [\<lparr>link_url = ''https://ex.com/'', link_text = ''home''\<rparr>], True)
   \<and> \<lparr>link_url = ''https://ex.com/'', link_text = ''home''\<rparr> \<notin>
       set [\<lparr>link_url = ''https://ex.com/a'', link_text = ''a''\<rparr>,
            \<lparr>link_url = ''https://ex.com/b/'', link_text = ''b''\<rparr>]"
proof -
  have "crawl (\<lambda>_. True) site1 ''https://ex.com/'' 10 None None =
     Inr ([\<lparr>page_url = ''https://ex.com'', page_title = ''Home'', page_content = ''hello''\<rparr>,
           \<lparr>page_url = ''https://ex.com/b'', page_title = ''B'', page_content = ''bee''\<rparr>],
          [\<lparr>link_url = ''https://ex.com/a'', link_text = ''a''\<rparr>,
           \<lparr>link_url = ''https://ex.com/b/'', link_text = ''b''\<rparr>])"
    by code_simp
  then show ?thesis by (simp add: site1_def)
qed

section \<open>The depth limit\<close>

text \<open>
  A site with a chain of links: the home page links to \<open>/a\<close>, \<open>/a\<close> links to \<open>/c\<close>.
\<close>

definition site2 :: "string \<Rightarrow> string option \<Rightarrow> scrape_result" where
  "site2 u r =
     (if u = ''https://ex.com''
      then (''Home'', ''hello'', [\<lparr>link_url = ''https://ex.com/a'', link_text = ''a''\<rparr>], True)
      else if u = ''https://ex.com/a''
      then (''A'', ''first'', [\<lparr>link_url = ''https://ex.com/c'', link_text = ''c''\<rparr>], True)
      else if u = ''https://ex.com/c'' then (''C'', ''second'', [], True)
      else ([], [], [], False))"

text \<open>
  C5. With \<open>max_depth = 1\<close>, every page that \<open>crawl\<close> returns is the start page (the canonical
  start URL) or is one hop from it: its URL is the canonical URL of a link that
  \<open>scrape_page\<close> returned for the start page. No other page appears, so none that is two or
  more hops away.
\<close>

theorem crawl_max_depth_one:
  assumes "crawl bh sp start_url max_pages (Some 1) pp = Inr (ps, ls)"
    and "normalize_url bh start_url = Inr start"
    and "sp start None = (title0, content0, links0, success0)"
    and "p \<in> set ps"
  shows "page_url p = start \<or> (\<exists>l\<in>set links0. normalize_url bh (link_url l) = Inr (page_url p))"
proof -
  from assms(1) obtain s' where run: "crawl_run bh sp start_url max_pages (Some 1) pp = Inr s'"
    and ps: "ps = pages s'"
    by (auto simp: crawl_def split: sum.splits)
  from run obtain start' parsed where "normalize_url bh start_url = Inr start'"
    "urlparse bh start_url = Some parsed" and
    loop: "crawl_loop bh sp max_pages (Some 1) pp (netloc parsed)
       \<lparr>visited = {}, to_visit = [(start', 0, None)], pages = [], all_links = [], dequeued = []\<rparr>
     = Inr s'"
    by (rule crawl_run_loop)
  with assms(2) have st: "start' = start" by simp
  have "depth1_inv bh start links0 s'"
  proof (rule crawl_loop_invariant [OF loop, where I = "depth1_inv bh start links0"])
    show "depth1_inv bh start links0
      \<lparr>visited = {}, to_visit = [(start', 0, None)], pages = [], all_links = [], dequeued = []\<rparr>"
      using st by (simp add: depth1_inv_def)
  next
    fix t t'
    assume "depth1_inv bh start links0 t"
      and "crawl_iteration bh sp (Some 1) pp (netloc parsed) t = Inr t'"
    then show "depth1_inv bh start links0 t'"
      using crawl_iteration_depth1 [where sp = sp and start = start] assms(3) by blast
  qed
  with ps assms(4) show ?thesis by (auto simp: depth1_inv_def)
qed

theorem crawl_max_depth_one_witness:
  "crawl (\<lambda>_. True) site2 ''https://ex.com/'' 10 (Some 1) None =
     Inr ([\<lparr>page_url = ''https://ex.com'', page_title = ''Home'', page_content = ''hello''\<rparr>,
           \<lparr>page_url = ''https://ex.com/a'', page_title = ''A'', page_content = ''first''\<rparr>],
          [\<lparr>link_url = ''https://ex.com/a'', link_text = ''a''\<rparr>])
   \<and> normalize_url (\<lambda>_. True) ''https://ex.com/'' = Inr ''https://ex.com''
   \<and> site2 ''https://ex.com'' None =
       (''Home'', ''hello'', [\<lparr>link_url = ''https://ex.com/a'', link_text = ''a''\<rparr>], True)
   \<and> (''https://ex.com/a'' = ''https://ex.com'' \<or>
      (\<exists>l\<in>set [\<lparr>link_url = ''https://ex.com/a'', link_text = ''a''\<rparr>].
          normalize_url (\<lambda>_. True) (link_url l) = Inr ''https://ex.com/a''))"
proof -
  let ?bh = "\<lambda>_::string. True"
  let ?home = "\<lparr>page_url = ''https://ex.com'', page_title = ''Home'', page_content = ''hello''\<rparr>"
  let ?a = "\<lparr>page_url = ''https://ex.com/a'', page_title = ''A'', page_content = ''first''\<rparr>"
  let ?la = "\<lparr>link_url = ''https://ex.com/a'', link_text = ''a''\<rparr>"
  have run: "crawl ?bh site2 ''https://ex.com/'' 10 (Some 1) None = Inr ([?home, ?a], [?la])"
    by code_simp
  have start: "normalize_url ?bh ''https://ex.com/'' = Inr ''https://ex.com''"
    by code_simp
  have seed: "site2 ''https://ex.com'' None = (''Home'', ''hello'', [?la], True)"
    by (simp add: site2_def)
  have mem: "?a \<in> set [?home, ?a]"
    by simp
  from crawl_max_depth_one [OF run start seed mem]
  have "''https://ex.com/a'' = ''https://ex.com'' \<or>
      (\<exists>l\<in>set [?la]. normalize_url ?bh (link_url l) = Inr ''https://ex.com/a'')"
    by simp
  with run start seed show ?thesis by blast
qed

section \<open>Facts about trees\<close>

lemma find_append:
  "List.find P (xs @ ys) = (case List.find P xs of Some x \<Rightarrow> Some x | None \<Rightarrow> List.find P ys)"
  by (induction xs) auto

lemma remove_nodes_name [simp]: "name_of (remove_nodes P n) = name_of n"
  by (cases n) auto

lemma remove_nodes_is_tag [simp]: "is_tag ns (remove_nodes P n) = is_tag ns n"
  by (cases n) auto

lemma remove_nodes_fixed:
  "remove_nodes P n = n \<longleftrightarrow> find_all P n = []"
proof (induction n)
  case (Tag nm a cs)
  have "map (remove_nodes P) (filter (\<lambda>c. \<not> P c) cs) = cs \<longleftrightarrow>
        (\<forall>c\<in>set cs. \<not> P c \<and> remove_nodes P c = c)"
  proof
    assume eq: "map (remove_nodes P) (filter (\<lambda>c. \<not> P c) cs) = cs"
    then have "length (filter (\<lambda>c. \<not> P c) cs) = length cs"
      by (metis length_map)
    then have f: "filter (\<lambda>c. \<not> P c) cs = cs"
      by (metis filter_True length_filter_less less_irrefl filter_cong)
    then have np: "\<forall>c\<in>set cs. \<not> P c" by (metis (mono_tags, lifting) filter_id_conv)
    from eq f have "map (remove_nodes P) cs = cs" by simp
    then have "\<forall>c\<in>set cs. remove_nodes P c = c" by (simp add: map_idI list.map_ident_strong map_eq_conv[symmetric] flip: map_ident)  
    with np show "\<forall>c\<in>set cs. \<not> P c \<and> remove_nodes P c = c" by blast
  next
    assume h: "\<forall>c\<in>set cs. \<not> P c \<and> remove_nodes P c = c"
    then have "filter (\<lambda>c. \<not> P c) cs = cs" by (simp add: filter_id_conv)
    moreover from h have "map (remove_nodes P) cs = cs" by (simp add: map_idI)
    ultimately show "map (remove_nodes P) (filter (\<lambda>c. \<not> P c) cs) = cs" by simp
  qed
  also have "\<dots> \<longleftrightarrow> (\<forall>c\<in>set cs. \<not> P c \<and> find_all P c = [])"
    using Tag.IH by auto
  also have "\<dots> \<longleftrightarrow> find_all P (Tag nm a cs) = []"
    by (auto simp: find_all_def filter_empty_conv)
  finally show ?case by simp
qed (simp_all add: find_all_def)

lemma find_all_remove_nodes:
  assumes "\<And>x. P (remove_nodes P x) = P x"
  shows "find_all P (remove_nodes P n) = []"
proof (induction n)
  case (Tag nm a cs)
  then show ?case
    using assms by (auto simp: find_all_def filter_empty_conv)
qed (simp_all add: find_all_def)

lemma remove_nodes_idem:
  assumes "\<And>x. P (remove_nodes P x) = P x"
  shows "remove_nodes P (remove_nodes P n) = remove_nodes P n"
  using assms by (simp add: remove_nodes_fixed find_all_remove_nodes)

definition descs :: "node list \<Rightarrow> node list" where
  "descs cs = concat (map (\<lambda>c. c # descendants c) cs)"

lemma descs_simps [simp]:
  "descs [] = []"
  "descs (c # cs) = c # descendants c @ descs cs"
  by (simp_all add: descs_def)

lemma descendants_Tag: "descendants (Tag nm a cs) = descs cs"
  by (simp add: descs_def)

lemma modify_first_name:
  "modify_first P f n = Some n' \<Longrightarrow> name_of n' = name_of n"
  by (cases n) auto

lemma modify_first_find:
  fixes P :: "node \<Rightarrow> bool"
  shows "(case List.find P (descendants n) of
           None \<Rightarrow> modify_first P f n = None
         | Some b \<Rightarrow> (\<exists>n'. modify_first P f n = Some n' \<and> (n' = n \<longleftrightarrow> f b = b)))"
proof (induction n)
  case (Tag nm a cs)
  have "(case List.find P (descs cs) of
           None \<Rightarrow> modify_first_list P f cs = None
         | Some b \<Rightarrow> (\<exists>cs'. modify_first_list P f cs = Some cs' \<and> (cs' = cs \<longleftrightarrow> f b = b)))"
    using Tag.IH
  proof (induction cs)
    case Nil
    then show ?case by simp
  next
    case (Cons c cs)
    have ihc: "(case List.find P (descendants c) of
           None \<Rightarrow> modify_first P f c = None
         | Some b \<Rightarrow> (\<exists>n'. modify_first P f c = Some n' \<and> (n' = c \<longleftrightarrow> f b = b)))"
      using Cons.prems by simp
    have ihcs: "(case List.find P (descs cs) of
           None \<Rightarrow> modify_first_list P f cs = None
         | Some b \<Rightarrow> (\<exists>cs'. modify_first_list P f cs = Some cs' \<and> (cs' = cs \<longleftrightarrow> f b = b)))"
      using Cons.IH Cons.prems by simp
    show ?case
    proof (cases "P c")
      case True
      then show ?thesis by simp
    next
      case False
      show ?thesis
      proof (cases "List.find P (descendants c)")
        case None
        with ihc ihcs False show ?thesis
          by (auto simp: find_append split: option.splits)
      next
        case (Some b)
        with ihc False show ?thesis
          by (auto simp: find_append split: option.splits)
      qed
    qed
  qed
  then show ?case
    by (auto simp: descendants_Tag simp del: descendants.simps split: option.splits)
qed simp_all


lemma modify_first_is_tag:
  "modify_first P f n = Some n' \<Longrightarrow> is_tag ns n' = is_tag ns n"
  by (cases n) auto

lemma modify_first_find_after:
  assumes pres: "\<And>x. is_tag ns (f x) = is_tag ns x"
  shows "modify_first (is_tag ns) f n = Some n' \<Longrightarrow>
         List.find (is_tag ns) (descendants n) = Some b \<Longrightarrow>
         List.find (is_tag ns) (descendants n') = Some (f b)"
proof (induction n arbitrary: n' b)
  case (Tag nm a cs)
  have "\<And>cs' b. modify_first_list (is_tag ns) f cs = Some cs' \<Longrightarrow>
          List.find (is_tag ns) (descs cs) = Some b \<Longrightarrow>
          List.find (is_tag ns) (descs cs') = Some (f b)"
    using Tag.IH
  proof (induction cs)
    case Nil
    then show ?case by simp
  next
    case (Cons c cs)
    show ?case
    proof (cases "is_tag ns c")
      case True
      with Cons.prems(1,2) pres show ?thesis by auto
    next
      case False
      show ?thesis
      proof (cases "modify_first (is_tag ns) f c")
        case None
        with modify_first_find [where P = "is_tag ns" and n = c and f = f]
        have nf: "List.find (is_tag ns) (descendants c) = None"
          by (auto split: option.splits)
        from None False Cons.prems(1) obtain cs'' where
          m: "modify_first_list (is_tag ns) f cs = Some cs''" and cs': "cs' = c # cs''"
          by auto
        from Cons.prems(2) False nf have "List.find (is_tag ns) (descs cs) = Some b"
          by (simp add: find_append)
        moreover have "\<And>x n' b. x \<in> set cs \<Longrightarrow> modify_first (is_tag ns) f x = Some n' \<Longrightarrow>
            List.find (is_tag ns) (descendants x) = Some b \<Longrightarrow>
            List.find (is_tag ns) (descendants n') = Some (f b)"
          using Cons.prems(3) by auto
        ultimately have "List.find (is_tag ns) (descs cs'') = Some (f b)"
          using Cons.IH [OF m] by blast
        with cs' False nf show ?thesis by (simp add: find_append)
      next
        case (Some c')
        with False Cons.prems(1) have cs': "cs' = c' # cs" by simp
        from Some modify_first_find [where P = "is_tag ns" and n = c and f = f]
        obtain b' where fb: "List.find (is_tag ns) (descendants c) = Some b'"
          by (auto split: option.splits)
        with Cons.prems(2) False have "b' = b" by (simp add: find_append)
        with fb Cons.prems(3) [of c c' b] Some
        have "List.find (is_tag ns) (descendants c') = Some (f b)" by simp
        moreover have "\<not> is_tag ns c'" using modify_first_is_tag [OF Some] False by simp
        ultimately show ?thesis using cs' by (simp add: find_append)
      qed
    qed
  qed
  with Tag.prems show ?case
    by (auto simp: descendants_Tag simp del: descendants.simps)
qed simp_all

lemma is_js_rendered_heap:
  "snd (is_js_rendered html soup heap) =
     heap[soup := replace_first (is_tag [''body'']) (remove_nodes (is_tag [''script'', ''style''])) (heap ! soup)]"
proof (cases "find_first (is_tag [''body'']) (heap ! soup)")
  case None
  with modify_first_find [where P = "is_tag [''body'']" and n = "heap ! soup"
      and f = "remove_nodes (is_tag [''script'', ''style''])"]
  have "modify_first (is_tag [''body'']) (remove_nodes (is_tag [''script'', ''style''])) (heap ! soup) = None"
    by (simp add: find_first_def)
  with None show ?thesis
    by (simp add: is_js_rendered_def replace_first_def)
next
  case (Some b)
  then show ?thesis by (simp add: is_js_rendered_def Let_def)
qed

lemma replace_first_unchanged:
  "replace_first P f doc = doc \<longleftrightarrow>
     (case find_first P doc of None \<Rightarrow> True | Some b \<Rightarrow> f b = b)"
  using modify_first_find [where P = P and n = doc and f = f]
  by (auto simp: replace_first_def find_first_def split: option.splits)

lemma replace_first_find:
  assumes "\<And>x. is_tag ns (f x) = is_tag ns x" and "find_first (is_tag ns) doc = Some b"
  shows "find_first (is_tag ns) (replace_first (is_tag ns) f doc) = Some (f b)"
proof -
  from assms(2) modify_first_find [where P = "is_tag ns" and n = doc and f = f]
  obtain doc' where m: "modify_first (is_tag ns) f doc = Some doc'"
    by (auto simp: find_first_def split: option.splits)
  from modify_first_find_after [OF assms(1) m] assms(2) m show ?thesis
    by (simp add: find_first_def replace_first_def)
qed


section \<open>What is_js_rendered does to its argument\<close>

text \<open>
  A document with a script in its body, as parsed from
  \<open><html><body><script>go()</script><p>hi</p></body></html>\<close>.
\<close>

definition doc_script :: node where
  "doc_script =
     Tag ''[document]'' []
       [Tag ''html'' []
          [Tag ''body'' []
             [Tag ''script'' [] [ContainerString Script ''go()''],
              Tag ''p'' [] [NavigableString ''hi'']]]]"

text \<open>
  C8 (as the code has it). \<open>is_js_rendered\<close> changes the document passed in and no other: it
  removes the \<open>script\<close> and \<open>style\<close> elements below the first \<open>body\<close> from the tree it was
  given, not from a copy. The document is left as it was exactly when it has no \<open>body\<close> or
  its first \<open>body\<close> holds no \<open>script\<close> or \<open>style\<close> element. A second call with the same
  arguments returns the same boolean and changes nothing more.
\<close>

theorem is_js_rendered_effect:
  assumes "soup < length heap"
  shows "snd (is_js_rendered html soup heap) = heap[soup := snd (is_js_rendered html soup heap) ! soup]
       \<and> (snd (is_js_rendered html soup heap) ! soup = heap ! soup \<longleftrightarrow>
            (case find_first (is_tag [''body'']) (heap ! soup) of
               None \<Rightarrow> True
             | Some body \<Rightarrow> find_all (is_tag [''script'', ''style'']) body = []))
       \<and> is_js_rendered html soup (snd (is_js_rendered html soup heap)) =
            is_js_rendered html soup heap"
proof -
  let ?B = "is_tag [''body'']"
  let ?rm = "remove_nodes (is_tag [''script'', ''style''])"
  let ?doc = "heap ! soup"
  let ?doc' = "replace_first ?B ?rm ?doc"
  let ?heap' = "heap[soup := ?doc']"
  have h: "snd (is_js_rendered html soup heap) = ?heap'" by (rule is_js_rendered_heap)
  have at: "?heap' ! soup = ?doc'" using assms by simp
  have one: "snd (is_js_rendered html soup heap) = heap[soup := snd (is_js_rendered html soup heap) ! soup]"
    unfolding h at by simp
  have two: "snd (is_js_rendered html soup heap) ! soup = heap ! soup \<longleftrightarrow>
            (case find_first ?B ?doc of None \<Rightarrow> True | Some body \<Rightarrow> find_all (is_tag [''script'', ''style'']) body = [])"
    unfolding h at by (simp add: replace_first_unchanged remove_nodes_fixed split: option.splits)
  have three: "is_js_rendered html soup ?heap' = is_js_rendered html soup heap"
  proof (cases "find_first ?B ?doc")
    case None
    then have "?doc' = ?doc" by (simp add: replace_first_unchanged)
    then show ?thesis by simp
  next
    case (Some b)
    have fb: "find_first ?B ?doc' = Some (?rm b)"
      by (rule replace_first_find [OF _ Some]) simp
    have idem: "?rm (?rm b) = ?rm b" by (rule remove_nodes_idem) simp
    have same: "replace_first ?B ?rm ?doc' = ?doc'"
      using fb idem by (simp add: replace_first_unchanged)
    show ?thesis
      using Some fb idem same at
      by (simp add: is_js_rendered_def Let_def)
  qed
  from one two three h show ?thesis by simp
qed


theorem is_js_rendered_effect_witness:
  "(0::nat) < length [doc_script]
   \<and> snd (is_js_rendered ''<script>'' 0 [doc_script]) =
       [doc_script][0 := snd (is_js_rendered ''<script>'' 0 [doc_script]) ! 0]
   \<and> is_js_rendered ''<script>'' 0 (snd (is_js_rendered ''<script>'' 0 [doc_script])) =
       is_js_rendered ''<script>'' 0 [doc_script]"
  using is_js_rendered_effect [of 0 "[doc_script]" "''<script>''"] by simp

text \<open>
  After the call on \<open>doc_script\<close> the document passed in has lost its script element.
\<close>

theorem is_js_rendered_counterexample:
  "is_js_rendered ''<html><body><script>go()</script><p>hi</p></body></html>'' 0 [doc_script] =
     (False, [Tag ''[document]'' []
                [Tag ''html'' [] [Tag ''body'' [] [Tag ''p'' [] [NavigableString ''hi'']]]]])
   \<and> snd (is_js_rendered ''<html><body><script>go()</script><p>hi</p></body></html>'' 0 [doc_script]) ! 0
       \<noteq> doc_script"
  by code_simp


section \<open>The title of a page without text in its heading\<close>

text \<open>
  A document without \<open>title\<close> whose first \<open>h1\<close> has no text, as parsed from
  \<open><html><head></head><body><h1></h1><p>Welcome</p></body></html>\<close>, and one whose
  \<open>title\<close> holds a single space.
\<close>

definition doc_empty_h1 :: node where
  "doc_empty_h1 =
     Tag ''[document]'' []
       [Tag ''html'' []
          [Tag ''head'' [] [],
           Tag ''body'' [] [Tag ''h1'' [] [], Tag ''p'' [] [NavigableString ''Welcome'']]]]"

definition doc_blank_title :: node where
  "doc_blank_title =
     Tag ''[document]'' []
       [Tag ''html'' []
          [Tag ''head'' [] [Tag ''title'' [] [NavigableString '' '']],
           Tag ''body'' [] [Tag ''h1'' [] [NavigableString ''Guide'']]]]"

lemma get_page_title_blank_title: "get_page_title doc_blank_title = []"
  by code_simp

text \<open>
  C9 (where the code departs from it). \<open>get_page_title\<close> returns the empty string for a
  document without \<open>title\<close> whose first \<open>h1\<close> has no text: the \<open>h1\<close> branch returns the
  stripped text of the heading without testing it.
\<close>

theorem get_page_title_empty_h1: "get_page_title doc_empty_h1 = []"
  by code_simp

section \<open>extract_text and its argument\<close>

text \<open>
  C10. \<open>extract_text\<close> leaves every document of the heap as it was, the one passed in
  included: the heap it returns is the heap it was given with one more document, the
  cleaned copy.
\<close>

theorem extract_text_keeps_documents:
  "take (length heap) (snd (extract_text reparse soup heap)) = heap \<and>
   length (snd (extract_text reparse soup heap)) = Suc (length heap)"
  by (simp add: extract_text_def Let_def)

section \<open>The code blocks of extract_text\<close>

fun node_at :: "node \<Rightarrow> nat list \<Rightarrow> node option" where
  "node_at n [] = Some n"
| "node_at (Tag nm a cs) (i # p) = (if i < length cs then node_at (cs ! i) p else None)"
| "node_at (NavigableString s) (i # p) = None"
| "node_at (Comment s) (i # p) = None"
| "node_at (ContainerString k s) (i # p) = None"

lemma node_at_append:
  "node_at n p = Some m \<Longrightarrow> node_at n (p @ q) = node_at m q"
proof (induction n p rule: node_at.induct)
  case (2 nm a cs i p)
  then show ?case by (auto split: if_splits)
qed simp_all

lemma walk_node_at:
  "(p, pn, x) \<in> set (walk q n) \<Longrightarrow> \<exists>r. p = q @ r \<and> node_at n r = Some x"
  "(p, pn, x) \<in> set (walk_children q nm i cs) \<Longrightarrow>
     \<exists>j r. j < length cs \<and> p = q @ (i + j) # r \<and> node_at (cs ! j) r = Some x"
proof (induction q n and q nm i cs arbitrary: p pn x and p pn x rule: walk_walk_children.induct)
  case (1 q nm a cs)
  from "1.prems" have "(p, pn, x) \<in> set (walk_children q nm 0 cs)" by simp
  from "1.IH" [OF this] obtain j r where "j < length cs" "p = q @ j # r" "node_at (cs ! j) r = Some x"
    by auto
  then have "p = q @ (j # r) \<and> node_at (Tag nm a cs) (j # r) = Some x" by simp
  then show ?case by blast
next
  case (5 q nm i c cs)
  from "5.prems" consider "(p, pn, x) = (q @ [i], nm, c)"
    | "(p, pn, x) \<in> set (walk (q @ [i]) c)"
    | "(p, pn, x) \<in> set (walk_children q nm (Suc i) cs)"
    by auto
  then show ?case
  proof cases
    case 1
    then have "0 < length (c # cs) \<and> p = q @ (i + 0) # [] \<and> node_at ((c # cs) ! 0) [] = Some x"
      by simp
    then show ?thesis by blast
  next
    case 2
    from "5.IH"(1) [OF this] obtain r where "p = (q @ [i]) @ r" "node_at c r = Some x" by blast
    then have "0 < length (c # cs) \<and> p = q @ (i + 0) # r \<and> node_at ((c # cs) ! 0) r = Some x"
      by simp
    then show ?thesis by blast
  next
    case 3
    from "5.IH"(2) [OF this] obtain j r where "j < length cs" "p = q @ (Suc i + j) # r"
      "node_at (cs ! j) r = Some x" by blast
    then have "Suc j < length (c # cs) \<and> p = q @ (i + Suc j) # r \<and>
               node_at ((c # cs) ! Suc j) r = Some x" by simp
    then show ?thesis by blast
  qed
qed simp_all

lemma walk_descendants:
  "map (\<lambda>(p, pn, x). x) (walk q n) = descendants n"
  "map (\<lambda>(p, pn, x). x) (walk_children q nm i cs) = descs cs"
  by (induction q n and q nm i cs rule: walk_walk_children.induct)
     (simp_all add: descendants_Tag del: descendants.simps(1))


lemma join_contains:
  "x \<in> set xs \<Longrightarrow> \<exists>before after. join sep xs = before @ x @ after"
proof (induction sep xs rule: join.induct)
  case (1 sep)
  then show ?case by simp
next
  case (2 sep y)
  then have "join sep [y] = [] @ x @ []" by simp
  then show ?case by blast
next
  case (3 sep y z zs)
  show ?case
  proof (cases "x = y")
    case True
    then have "join sep (y # z # zs) = [] @ x @ (sep @ join sep (z # zs))" by simp
    then show ?thesis by blast
  next
    case False
    with "3.prems" have "x \<in> set (z # zs)" by simp
    from "3.IH" [OF this] obtain b a where "join sep (z # zs) = b @ x @ a" by blast
    then have "join sep (y # z # zs) = (y @ sep @ b) @ x @ a" by simp
    then show ?thesis by blast
  qed
qed

text \<open>What \<open>seen_elements\<close> can hold: paths of elements already handled, and paths of code elements.\<close>

definition seen_inv :: "node \<Rightarrow> (nat list \<times> string \<times> node) list \<Rightarrow> nat list set \<Rightarrow> bool" where
  "seen_inv mc handled seen =
     (\<forall>s\<in>seen. s \<in> fst ` set handled \<or> (\<exists>c. node_at mc s = Some c \<and> is_tag [''code''] c))"

lemma process_element_lines:
  "process_element pe (lines, seen) = (lines', seen') \<Longrightarrow> set lines \<subseteq> set lines'"
  by (auto simp: process_element_def Let_def split: prod.splits if_splits)

lemma process_element_seen:
  assumes "process_element (p, pn, e) (lines, seen) = (lines', seen')"
    and "node_at mc p = Some e" and "seen_inv mc handled seen"
  shows "seen_inv mc (handled @ [(p, pn, e)]) seen'"
proof -
  have codes: "\<And>s. s \<in> set (map (\<lambda>(q, pn, c). p @ q)
                 (filter (\<lambda>(q, pn, c). is_tag [''code''] c) (walk [] e))) \<Longrightarrow>
          \<exists>c. node_at mc s = Some c \<and> is_tag [''code''] c"
  proof -
    fix s assume "s \<in> set (map (\<lambda>(q, pn, c). p @ q)
                 (filter (\<lambda>(q, pn, c). is_tag [''code''] c) (walk [] e)))"
    then obtain q pn' c where w: "(q, pn', c) \<in> set (walk [] e)" and c: "is_tag [''code''] c"
      and s: "s = p @ q" by auto
    from walk_node_at(1) [OF w] have "node_at e q = Some c" by simp
    with node_at_append [OF assms(2), of q] s have "node_at mc s = Some c" by simp
    with c show "\<exists>c. node_at mc s = Some c \<and> is_tag [''code''] c" by blast
  qed
  from assms(1) have "seen' = seen \<or>
      seen' = insert p seen \<union> set (map (\<lambda>(q, pn, c). p @ q)
                 (filter (\<lambda>(q, pn, c). is_tag [''code''] c) (walk [] e)))"
    by (auto simp: process_element_def Let_def split: if_splits)
  then show ?thesis
  proof
    assume "seen' = seen"
    with assms(3) show ?thesis by (auto simp: seen_inv_def)
  next
    assume s': "seen' = insert p seen \<union> set (map (\<lambda>(q, pn, c). p @ q)
                 (filter (\<lambda>(q, pn, c). is_tag [''code''] c) (walk [] e)))"
    show ?thesis
      unfolding seen_inv_def
    proof
      fix s assume "s \<in> seen'"
      with s' consider "s = p" | "s \<in> seen"
        | "s \<in> set (map (\<lambda>(q, pn, c). p @ q)
                 (filter (\<lambda>(q, pn, c). is_tag [''code''] c) (walk [] e)))" by blast
      then show "s \<in> fst ` set (handled @ [(p, pn, e)]) \<or>
                 (\<exists>c. node_at mc s = Some c \<and> is_tag [''code''] c)"
      proof cases
        case 1
        then show ?thesis by simp
      next
        case 2
        with assms(3) show ?thesis by (auto simp: seen_inv_def)
      next
        case 3
        from codes [OF this] show ?thesis by blast
      qed
    qed
  qed
qed

lemma fold_process_element:
  assumes "set es \<subseteq> set (walk [] mc)" and "seen_inv mc handled seen"
    and "fold process_element es (lines, seen) = (lines', seen')"
  shows "seen_inv mc (handled @ es) seen' \<and> set lines \<subseteq> set lines'"
  using assms
proof (induction es arbitrary: handled lines seen)
  case Nil
  then show ?case by simp
next
  case (Cons x es)
  obtain p pn e where x: "x = (p, pn, e)" by (cases x) auto
  obtain l1 s1 where st: "process_element x (lines, seen) = (l1, s1)"
    by (cases "process_element x (lines, seen)") auto
  from Cons.prems(1) x have "(p, pn, e) \<in> set (walk [] mc)" by simp
  from walk_node_at(1) [OF this] have na: "node_at mc p = Some e" by simp
  from process_element_seen [OF st [unfolded x] na Cons.prems(2)]
  have inv1: "seen_inv mc (handled @ [x]) s1" by (simp add: x)
  from Cons.prems(3) st have "fold process_element es (l1, s1) = (lines', seen')" by simp
  from Cons.IH [OF _ inv1 this] Cons.prems(1)
  have "seen_inv mc ((handled @ [x]) @ es) seen' \<and> set l1 \<subseteq> set lines'" by simp
  moreover from process_element_lines [OF st] have "set lines \<subseteq> set l1" .
  ultimately show ?case by auto
qed


lemma extract_lines_pre:
  assumes mem: "(p, pn, e) \<in> set (walk [] mc)" and pre: "name_of e = ''pre''"
    and nonblank: "strip (get_text [] False e) \<noteq> []"
  shows "fenced (language_of e) (get_text [] False e) \<in> set (extract_lines mc)"
proof -
  let ?es = "elements_of mc"
  have tag: "is_tag block_names e" using pre by (cases e) (auto simp: block_names_def)
  have notcode: "\<not> is_tag [''code''] e" using pre by (cases e) auto
  from mem tag have "(p, pn, e) \<in> set ?es" by (simp add: elements_of_def)
  then have "\<exists>x\<in>set ?es. fst x = p" by force
  from split_list_first_prop [OF this] obtain ys x zs where
    es: "?es = ys @ x # zs" and x: "fst x = p" and ys: "\<forall>y\<in>set ys. fst y \<noteq> p" by blast
  have sub: "set ?es \<subseteq> set (walk [] mc)" by (auto simp: elements_of_def)
  obtain pn' e' where x': "x = (p, pn', e')" using x by (cases x) auto
  from sub es x' have "(p, pn', e') \<in> set (walk [] mc)" by auto
  from walk_node_at(1) [OF this] walk_node_at(1) [OF mem] have e': "e' = e" by simp
  have na: "node_at mc p = Some e" using walk_node_at(1) [OF mem] by simp
  obtain l1 s1 where f1: "fold process_element ys ([], {}) = (l1, s1)"
    by (cases "fold process_element ys ([], {})") auto
  have "seen_inv mc ([] @ ys) s1 \<and> set [] \<subseteq> set l1"
  proof (rule fold_process_element [OF _ _ f1])
    show "set ys \<subseteq> set (walk [] mc)" using sub es by auto
    show "seen_inv mc [] {}" by (simp add: seen_inv_def)
  qed
  then have inv: "seen_inv mc ys s1" by simp
  have fresh: "p \<notin> s1"
  proof
    assume "p \<in> s1"
    with inv have "p \<in> fst ` set ys \<or> (\<exists>c. node_at mc p = Some c \<and> is_tag [''code''] c)"
      by (auto simp: seen_inv_def)
    with ys na notcode show False by auto
  qed
  obtain s2 where step: "process_element x (l1, s1) =
      (l1 @ [fenced (language_of e) (get_text [] False e)], s2)"
    using fresh pre nonblank by (simp add: process_element_def x' e' Let_def)
  obtain l3 s3 where f3: "fold process_element zs
      (l1 @ [fenced (language_of e) (get_text [] False e)], s2) = (l3, s3)"
    by (cases "fold process_element zs (l1 @ [fenced (language_of e) (get_text [] False e)], s2)") auto
  have zs_sub: "set zs \<subseteq> set (walk [] mc)" using sub es by auto
  have inv2: "seen_inv mc (ys @ [x]) s2"
    using process_element_seen [OF step [unfolded x' e'] na inv] by (simp add: x' e')
  from fold_process_element [OF zs_sub inv2 f3]
  have "set (l1 @ [fenced (language_of e) (get_text [] False e)]) \<subseteq> set l3" by simp
  then have "fenced (language_of e) (get_text [] False e) \<in> set l3" by auto
  moreover have "extract_lines mc = l3"
    by (simp add: extract_lines_def es f1 step f3)
  ultimately show ?thesis by simp
qed

lemma language_go:
  assumes "map_of ca ''class'' = Some ''language-go''"
  shows "language_of (Tag ''pre'' a [Tag ''code'' ca [NavigableString X]]) = ''go''"
proof -
  have 1: "split_ws ''language-go'' = [''language-go'']" by code_simp
  have 2: "startswith ''language-go'' ''language-''" by code_simp
  have 3: "str_replace ''language-'' [] ''language-go'' = ''go''" by code_simp
  show ?thesis
    using assms
    by (simp add: language_of_def find_first_def get_class_def 1 2 3 del: str_replace.simps)
qed

lemma pre_code_text:
  "get_text [] False (Tag ''pre'' a [Tag ''code'' ca [NavigableString X]]) = X"
  by (simp add: get_text_def all_strings_def interesting_string_types_def string_containers_def)

lemma walk_mem_descendants:
  "x \<in> set (descendants n) \<Longrightarrow> \<exists>p pn. (p, pn, x) \<in> set (walk [] n)"
proof -
  assume "x \<in> set (descendants n)"
  then have "x \<in> set (map (\<lambda>(p, pn, x). x) (walk [] n))" by (simp add: walk_descendants)
  then show ?thesis by auto
qed

text \<open>
  A document with one Go code block, as parsed from
  \<open><html><body><pre><code class="language-go">  x := 1</code></pre></body></html>\<close>
  (with a line feed after the code), one whose code element holds a single space, and one
  whose code block stands inside a \<open>template\<close> element, as parsed from
  \<open><html><body><template><pre><code class="language-go">x := 1</code></pre></template></body></html>\<close>:
  there the text is a \<open>TemplateString\<close>.
\<close>

definition doc_go :: node where
  "doc_go =
     Tag ''[document]'' []
       [Tag ''html'' []
          [Tag ''body'' []
             [Tag ''pre'' []
                [Tag ''code'' [(''class'', ''language-go'')]
                   [NavigableString [CHR '' '', CHR '' '', CHR ''x'', CHR '' '', CHR '':'', CHR ''='',
                                     CHR '' '', CHR ''1'', CHR 0x0A]]]]]]"

definition doc_blank_code :: node where
  "doc_blank_code =
     Tag ''[document]'' []
       [Tag ''html'' []
          [Tag ''body'' []
             [Tag ''pre'' [] [Tag ''code'' [(''class'', ''language-go'')] [NavigableString '' '']]]]]"

definition doc_template_code :: node where
  "doc_template_code =
     Tag ''[document]'' []
       [Tag ''html'' []
          [Tag ''body'' []
             [Tag ''template'' []
                [Tag ''pre'' []
                   [Tag ''code'' [(''class'', ''language-go'')]
                      [ContainerString TemplateString ''x := 1'']]]]]]"

text \<open>
  C7 (as the code has it). Take the copy that \<open>extract_text\<close> works on: the document parsed
  again, without the unwanted elements and the comments. When a
  \<open><pre><code class="language-go">X</code></pre>\<close> element stands below its content root, its
  text \<open>X\<close> is a plain \<open>NavigableString\<close> (as the parser makes it outside \<open>template\<close>, \<open>rt\<close> and
  \<open>rp\<close> elements) and \<open>X\<close> is not empty after \<open>strip()\<close>, the text returned contains the fenced
  block whose opening fence is tagged \<open>go\<close> and whose body is \<open>X.strip()\<close>.
\<close>

theorem extract_text_fenced_block:
  assumes "working = remove_nodes is_comment (remove_nodes (is_tag unwanted) (reparse (heap ! soup)))"
    and "Tag ''pre'' a [Tag ''code'' ca [NavigableString X]] \<in> set (descendants (main_content working))"
    and "map_of ca ''class'' = Some ''language-go''"
    and "strip X \<noteq> []"
  shows "\<exists>before after. fst (extract_text reparse soup heap) =
           before @ ([newline] @ replicate 3 backtick @ ''go'' @ [newline] @ strip X @ [newline] @
                     replicate 3 backtick @ [newline]) @ after"
proof -
  let ?e = "Tag ''pre'' a [Tag ''code'' ca [NavigableString X]]"
  let ?mc = "main_content working"
  from walk_mem_descendants [OF assms(2)] obtain p pn where mem: "(p, pn, ?e) \<in> set (walk [] ?mc)"
    by blast
  have "fenced (language_of ?e) (get_text [] False ?e) \<in> set (extract_lines ?mc)"
    by (rule extract_lines_pre [OF mem]) (simp_all add: pre_code_text assms(4))
  then have blk: "fenced ''go'' X \<in> set (extract_lines ?mc)"
    by (simp add: language_go [OF assms(3)] pre_code_text)
  then have ne: "extract_lines ?mc \<noteq> []" by auto
  have out: "fst (extract_text reparse soup heap) = join [newline] (extract_lines ?mc)"
    using ne by (simp add: extract_text_def extract_from_def Let_def assms(1))
  from join_contains [OF blk, of "[newline]"] obtain b c where
    "join [newline] (extract_lines ?mc) = b @ fenced ''go'' X @ c" by blast
  with out show ?thesis by (auto simp: fenced_def)
qed


theorem extract_text_fenced_block_witness:
  "doc_go = remove_nodes is_comment (remove_nodes (is_tag unwanted) ((\<lambda>d. d) ([doc_go] ! 0)))
   \<and> Tag ''pre'' [] [Tag ''code'' [(''class'', ''language-go'')]
          [NavigableString [CHR '' '', CHR '' '', CHR ''x'', CHR '' '', CHR '':'', CHR ''='',
                            CHR '' '', CHR ''1'', CHR 0x0A]]]
       \<in> set (descendants (main_content doc_go))
   \<and> strip [CHR '' '', CHR '' '', CHR ''x'', CHR '' '', CHR '':'', CHR ''='', CHR '' '', CHR ''1'',
             CHR 0x0A] = ''x := 1''
   \<and> (\<exists>before after. fst (extract_text (\<lambda>d. d) 0 [doc_go]) =
          before @ ([newline] @ replicate 3 backtick @ ''go'' @ [newline] @ ''x := 1'' @ [newline] @
                    replicate 3 backtick @ [newline]) @ after)"
proof -
  let ?X = "[CHR '' '', CHR '' '', CHR ''x'', CHR '' '', CHR '':'', CHR ''='', CHR '' '', CHR ''1'',
             CHR 0x0A]"
  have working: "doc_go = remove_nodes is_comment (remove_nodes (is_tag unwanted) ((\<lambda>d. d) ([doc_go] ! 0)))"
    by code_simp
  have below: "Tag ''pre'' [] [Tag ''code'' [(''class'', ''language-go'')] [NavigableString ?X]]
       \<in> set (descendants (main_content doc_go))"
    by code_simp
  have cls: "map_of [(''class'', ''language-go'')] ''class'' = Some ''language-go''"
    by simp
  have body: "strip ?X = ''x := 1''"
    by code_simp
  then have nonblank: "strip ?X \<noteq> []"
    by simp
  from extract_text_fenced_block
         [where reparse = "\<lambda>d. d" and heap = "[doc_go]" and soup = 0, OF working below cls nonblank]
  have "\<exists>before after. fst (extract_text (\<lambda>d. d) 0 [doc_go]) =
          before @ ([newline] @ replicate 3 backtick @ ''go'' @ [newline] @ strip ?X @ [newline] @
                    replicate 3 backtick @ [newline]) @ after" .
  with working below body show ?thesis by simp
qed

text \<open>
  In \<open>doc_blank_code\<close> the code element holds the text of one space, which is not empty, and
  stands below the content root; \<open>extract_text\<close> returns the empty string, so no fenced block.
\<close>

theorem extract_text_blank_code_counterexample:
  "Tag ''pre'' [] [Tag ''code'' [(''class'', ''language-go'')] [NavigableString '' '']]
       \<in> set (descendants (main_content
              (remove_nodes is_comment (remove_nodes (is_tag unwanted) doc_blank_code))))
   \<and> '' '' \<noteq> []
   \<and> fst (extract_text (\<lambda>d. d) 0 [doc_blank_code]) = []"
  by code_simp

text \<open>
  In \<open>doc_template_code\<close> the text of the code block is a \<open>TemplateString\<close>, which \<open>get_text\<close>
  on the \<open>pre\<close> element leaves out: no fenced block is written.
\<close>

lemma extract_text_template_code:
  "get_text [] False
     (Tag ''pre'' [] [Tag ''code'' [(''class'', ''language-go'')]
                        [ContainerString TemplateString ''x := 1'']]) = []
   \<and> get_text [] False
     (Tag ''template'' []
        [Tag ''pre'' [] [Tag ''code'' [(''class'', ''language-go'')]
                           [ContainerString TemplateString ''x := 1'']]]) = ''x := 1''
   \<and> fst (extract_text (\<lambda>d. d) 0 [doc_template_code]) = []"
  by code_simp

section \<open>How often a URL is dequeued\<close>










section \<open>The canonical form of a URL\<close>

lemma of_char_lower_char:
  "(of_char (lower_char c) :: nat) =
     (if (65 \<le> (of_char c :: nat) \<and> (of_char c :: nat) \<le> 90) \<or>
         (192 \<le> (of_char c :: nat) \<and> (of_char c :: nat) \<le> 222 \<and> (of_char c :: nat) \<noteq> 215)
      then of_char c + 32 else of_char c)"
  by (auto simp: lower_char_def Let_def)

lemma lower_char_idem: "lower_char (lower_char c) = lower_char c"
  by (rule of_char_eqI [where 'a = nat]) (auto simp: of_char_lower_char)

lemma lower_idem: "lower (lower s) = lower s"
  by (simp add: lower_def lower_char_idem)

lemma ascii_alpha_lower_char: "ascii_alpha c \<Longrightarrow> ascii_alpha (lower_char c)"
  by (auto simp: ascii_alpha_def of_char_lower_char Let_def)

lemma ascii_alpha_not_c0: "ascii_alpha c \<Longrightarrow> \<not> c0_control_or_space c"
  by (auto simp: ascii_alpha_def c0_control_or_space_def Let_def)

lemma scheme_codes_eq:
  "map of_char scheme_chars = [97..<123] @ [65..<91] @ [48..<58] @ [43, 45, 46 :: nat]"
  by (simp add: scheme_chars_def upt_rec_numeral)

lemma scheme_char_code:
  "c \<in> set scheme_chars \<longleftrightarrow>
     (97 \<le> (of_char c :: nat) \<and> (of_char c :: nat) \<le> 122) \<or>
     (65 \<le> (of_char c :: nat) \<and> (of_char c :: nat) \<le> 90) \<or>
     (48 \<le> (of_char c :: nat) \<and> (of_char c :: nat) \<le> 57) \<or>
     (of_char c :: nat) \<in> {43, 45, 46}"
proof -
  let ?n = "of_char c :: nat"
  have "c \<in> set scheme_chars \<longleftrightarrow> ?n \<in> of_char ` set scheme_chars"
    by (simp add: inj_image_mem_iff [OF inj_of_char])
  also have "of_char ` set scheme_chars = set (map of_char scheme_chars :: nat list)"
    by simp
  also have "\<dots> = set ([97..<123] @ [65..<91] @ [48..<58] @ [43, 45, 46 :: nat])"
    by (simp only: scheme_codes_eq)
  also have "?n \<in> \<dots> \<longleftrightarrow>
     (97 \<le> ?n \<and> ?n < 123) \<or> (65 \<le> ?n \<and> ?n < 91) \<or> (48 \<le> ?n \<and> ?n < 58) \<or> ?n \<in> set [43, 45, 46]"
    by (simp only: set_append set_upt Un_iff atLeastLessThan_iff)
  also have "\<dots> \<longleftrightarrow> (97 \<le> ?n \<and> ?n \<le> 122) \<or> (65 \<le> ?n \<and> ?n \<le> 90) \<or> (48 \<le> ?n \<and> ?n \<le> 57) \<or>
     ?n \<in> {43, 45, 46}"
    by (simp only: list.set) arith
  finally show ?thesis .
qed

lemma scheme_char_lower: "c \<in> set scheme_chars \<Longrightarrow> lower_char c \<in> set scheme_chars"
  unfolding scheme_char_code of_char_lower_char by auto

lemma scheme_char_plain:
  assumes "c \<in> set scheme_chars"
  shows "c \<noteq> CHR '':''" and "\<not> unsafe_url_byte c" and "\<not> netloc_delim c"
proof -
  from assms have r: "(97 \<le> (of_char c :: nat) \<and> (of_char c :: nat) \<le> 122) \<or>
     (65 \<le> (of_char c :: nat) \<and> (of_char c :: nat) \<le> 90) \<or>
     (48 \<le> (of_char c :: nat) \<and> (of_char c :: nat) \<le> 57) \<or>
     (of_char c :: nat) \<in> {43, 45, 46}" by (simp only: scheme_char_code)
  show "c \<noteq> CHR '':''"
  proof
    assume "c = CHR '':''"
    then have "(of_char c :: nat) = 58" by simp
    with r show False by auto
  qed
  show "\<not> unsafe_url_byte c" using r by (auto simp: unsafe_url_byte_def)
  show "\<not> netloc_delim c"
  proof
    assume "netloc_delim c"
    then have "(of_char c :: nat) \<in> {47, 63, 35}" by (auto simp: netloc_delim_def)
    with r show False by auto
  qed
qed

lemma takeWhile_neq_append: "c \<notin> set xs \<Longrightarrow> takeWhile (\<lambda>x. x \<noteq> c) (xs @ c # ys) = xs"
  by (induction xs) auto

lemma dropWhile_neq_append: "c \<notin> set xs \<Longrightarrow> dropWhile (\<lambda>x. x \<noteq> c) (xs @ c # ys) = c # ys"
  by (induction xs) auto

lemma takeWhile_neq_none: "c \<notin> set s \<Longrightarrow> takeWhile (\<lambda>x. x \<noteq> c) s = s"
  by (induction s) auto

lemma dropWhile_neq_none: "c \<notin> set s \<Longrightarrow> dropWhile (\<lambda>x. x \<noteq> c) s = []"
  by (induction s) auto

lemma before_append:
  "c \<notin> set xs \<Longrightarrow> before c (xs @ c # ys) = xs"
  by (simp add: before_def takeWhile_neq_append)

lemma after_append:
  "c \<notin> set xs \<Longrightarrow> after c (xs @ c # ys) = ys"
  by (simp add: after_def dropWhile_neq_append)

lemma before_none: "c \<notin> set s \<Longrightarrow> before c s = s"
  by (simp add: before_def takeWhile_neq_none)

lemma after_none: "c \<notin> set s \<Longrightarrow> after c s = []"
  by (simp add: after_def dropWhile_neq_none)

lemma before_after: "c \<in> set s \<Longrightarrow> before c s @ c # after c s = s"
  by (induction s) (auto simp: before_def after_def)

lemma before_not_mem: "c \<notin> set (before c s)"
  by (auto simp: before_def dest: set_takeWhileD)

lemma set_before: "set (before c s) \<subseteq> set s"
  by (auto simp: before_def dest: set_takeWhileD)

lemma set_after: "set (after c s) \<subseteq> set s"
  by (auto simp: after_def dest: in_set_dropD set_dropWhileD)

lemma rstrip_prefix: "s = rstrip P s @ rev (takeWhile P (rev s))"
  unfolding rstrip_def by (metis rev_append rev_rev_ident takeWhile_dropWhile_id)

lemma set_rstrip: "set (rstrip P s) \<subseteq> set s"
  by (auto simp: rstrip_def dest: set_dropWhileD)

lemma rstrip_idem: "rstrip P (rstrip P s) = rstrip P s"
  by (simp add: rstrip_def)

lemma rstrip_hd: "rstrip P s \<noteq> [] \<Longrightarrow> hd (rstrip P s) = hd s"
  using rstrip_prefix [of s P] by (metis hd_append2)

lemma split_pair_simp:
  "(if c \<in> set s then (before c s, after c s) else (s, [])) = (before c s, after c s)"
  by (simp add: before_none after_none)


lemma urlsplit_eq:
  "urlsplit bh u =
     (let url1 = filter (\<lambda>c. \<not> unsafe_url_byte c) (lstrip c0_control_or_space u);
          sch = (if has_scheme url1 then lower (before CHR '':'' url1) else []);
          url2 = (if has_scheme url1 then after CHR '':'' url1 else url1);
          nl = (if take 2 url2 = ''//'' then takeWhile (\<lambda>c. \<not> netloc_delim c) (drop 2 url2) else []);
          url3 = (if take 2 url2 = ''//'' then dropWhile (\<lambda>c. \<not> netloc_delim c) (drop 2 url2) else url2)
      in if \<not> netloc_ok bh nl then None
         else Some (sch, nl, before CHR ''?'' (before CHR ''#'' url3),
                    after CHR ''?'' (before CHR ''#'' url3), after CHR ''#'' url3))"
  by (simp add: urlsplit_def Let_def splitnetloc_def split_pair_simp)

lemma takeWhile_until:
  assumes "\<forall>x\<in>set xs. P x" and "ys = [] \<or> \<not> P (hd ys)"
  shows "takeWhile P (xs @ ys) = xs" and "dropWhile P (xs @ ys) = ys"
proof -
  have base: "takeWhile P ys = [] \<and> dropWhile P ys = ys"
    using assms(2) by (cases ys) auto
  from assms(1) base show "takeWhile P (xs @ ys) = xs" by (induction xs) auto
  from assms(1) base show "dropWhile P (xs @ ys) = ys" by (induction xs) auto
qed

lemma urlsplit_canonical:
  assumes sch: "sch \<noteq> []" "ascii_alpha (hd sch)" "\<forall>c\<in>set sch. c \<in> set scheme_chars"
      "lower sch = sch"
    and nl: "netloc_ok bh nl" "\<forall>c\<in>set nl. \<not> netloc_delim c"
    and p: "p = [] \<or> hd p = CHR ''/''" "CHR ''?'' \<notin> set p" "CHR ''#'' \<notin> set p"
    and q: "CHR ''#'' \<notin> set q"
    and safe: "\<forall>c\<in>set (nl @ p @ q). \<not> unsafe_url_byte c"
  shows "urlsplit bh (sch @ ''://'' @ nl @ p @ (if q \<noteq> [] then ''?'' @ q else [])) =
           Some (sch, nl, p, q, [])"
proof -
  let ?qpart = "if q \<noteq> [] then ''?'' @ q else []"
  let ?tail = "nl @ p @ ?qpart"
  let ?v = "sch @ ''://'' @ ?tail"
  from sch(1) obtain s0 ss where s0: "sch = s0 # ss" by (cases sch) auto
  have nc0: "\<not> c0_control_or_space s0" using sch(2) s0 ascii_alpha_not_c0 by simp
  have l: "lstrip c0_control_or_space ?v = ?v" using nc0 by (simp add: lstrip_def s0)
  have plain: "\<not> unsafe_url_byte CHR '':''" "\<not> unsafe_url_byte CHR ''/''"
      "\<not> unsafe_url_byte CHR ''?''"
    by (simp_all add: unsafe_url_byte_def)
  have "\<forall>c\<in>set ?v. \<not> unsafe_url_byte c"
    using sch(3) scheme_char_plain(2) safe plain by auto
  then have f: "filter (\<lambda>c. \<not> unsafe_url_byte c) ?v = ?v" by (simp only: filter_id_conv) 
  have colon: "CHR '':'' \<notin> set sch" using sch(3) scheme_char_plain(1) by blast
  have v: "?v = sch @ CHR '':'' # (''//'' @ ?tail)" by simp
  have b: "before CHR '':'' ?v = sch" unfolding v by (rule before_append [OF colon])
  have a: "after CHR '':'' ?v = ''//'' @ ?tail" unfolding v by (rule after_append [OF colon])
  have hs: "has_scheme ?v"
    unfolding has_scheme_def b using sch s0 by (simp add: list_all_iff)
  have rest: "p @ ?qpart = [] \<or> netloc_delim (hd (p @ ?qpart))"
    using p(1) by (cases p) (auto simp: netloc_delim_def)
  have tw: "takeWhile (\<lambda>c. \<not> netloc_delim c) ?tail = nl"
    and dw: "dropWhile (\<lambda>c. \<not> netloc_delim c) ?tail = p @ ?qpart"
    using takeWhile_until [where P = "\<lambda>c. \<not> netloc_delim c" and xs = nl and ys = "p @ ?qpart"]
      nl(2) rest by auto
  have hash: "CHR ''#'' \<notin> set (p @ ?qpart)" using p(3) q by auto
  have b3: "before CHR ''#'' (p @ ?qpart) = p @ ?qpart" by (rule before_none [OF hash])
  have a3: "after CHR ''#'' (p @ ?qpart) = []" by (rule after_none [OF hash])
  have b4: "before CHR ''?'' (p @ ?qpart) = p"
  proof (cases "q = []")
    case True
    then show ?thesis using p(2) by (simp add: before_none)
  next
    case False
    then show ?thesis using before_append [OF p(2), of q] by simp
  qed
  have a4: "after CHR ''?'' (p @ ?qpart) = q"
  proof (cases "q = []")
    case True
    then show ?thesis using p(2) by (simp add: after_none)
  next
    case False
    then show ?thesis using after_append [OF p(2), of q] by simp
  qed
  show ?thesis
    unfolding urlsplit_eq l f Let_def
    using hs b a tw dw nl(1) b3 a3 b4 a4 sch(4) by simp
qed


lemma before_prefix: "\<exists>suffix. s = before c s @ suffix"
  unfolding before_def by (metis takeWhile_dropWhile_id)

lemma splitparams_prefix: "\<exists>suffix. url = fst (splitparams url) @ suffix"
proof -
  let ?k = "rfind CHR ''/'' url"
  have "\<exists>suffix. url = (take ?k url @ before CHR '';'' (drop ?k url)) @ suffix"
    using before_prefix [of "drop ?k url" "CHR '';''"] by (metis append.assoc append_take_drop_id)
  then show ?thesis
    using before_prefix [of url "CHR '';''"] by (auto simp: splitparams_def Let_def)
qed

lemma hd_before:
  assumes "s \<noteq> []" and "hd s \<noteq> c"
  shows "before c s \<noteq> []" and "hd (before c s) = hd s"
  using assms by (cases s; simp add: before_def)+

lemma normalize_url_idempotent_absolute:
  assumes parsed: "urlparse bh u = Some parsed"
    and abs: "scheme parsed \<noteq> []" "netloc parsed \<noteq> []"
    and semi: "CHR '';'' \<notin> set (path parsed)"
    and v: "normalize_url bh u = Inr v"
  shows "normalize_url bh v = Inr v"
proof -
  define url1 where "url1 = filter (\<lambda>c. \<not> unsafe_url_byte c) (lstrip c0_control_or_space u)"
  define sch where "sch = (if has_scheme url1 then lower (before CHR '':'' url1) else [])"
  define url2 where "url2 = (if has_scheme url1 then after CHR '':'' url1 else url1)"
  define nl where "nl = (if take 2 url2 = ''//''
                         then takeWhile (\<lambda>c. \<not> netloc_delim c) (drop 2 url2) else [])"
  define url3 where "url3 = (if take 2 url2 = ''//''
                         then dropWhile (\<lambda>c. \<not> netloc_delim c) (drop 2 url2) else url2)"
  define u5 where "u5 = before CHR ''?'' (before CHR ''#'' url3)"
  define qu where "qu = after CHR ''?'' (before CHR ''#'' url3)"
  have split: "urlsplit bh u =
      (if \<not> netloc_ok bh nl then None else Some (sch, nl, u5, qu, after CHR ''#'' url3))"
    unfolding urlsplit_eq Let_def url1_def sch_def url2_def nl_def url3_def u5_def qu_def by simp
  from parsed have ok: "netloc_ok bh nl"
    by (auto simp: urlparse_def split split: if_splits)
  define pth where "pth = (if sch \<in> set uses_params \<and> CHR '';'' \<in> set u5
                           then fst (splitparams u5) else u5)"
  from parsed ok have fields: "scheme parsed = sch" "netloc parsed = nl" "path parsed = pth"
      "query parsed = qu"
    by (auto simp: urlparse_def split pth_def Let_def split: if_splits prod.splits)
  \<comment> \<open>the scheme\<close>
  from abs(1) fields(1) have hs: "has_scheme url1" by (auto simp: sch_def split: if_splits)
  then have sch: "sch = lower (before CHR '':'' url1)" by (simp add: sch_def)
  from hs have bne: "before CHR '':'' url1 \<noteq> []" and alpha: "ascii_alpha (hd url1)"
    and chars: "\<forall>c\<in>set (before CHR '':'' url1). c \<in> set scheme_chars"
    by (auto simp: has_scheme_def list_all_iff)
  have hdb: "hd (before CHR '':'' url1) = hd url1"
    using bne by (cases url1) (auto simp: before_def split: if_splits)
  have s1: "sch \<noteq> []" using sch bne by (simp add: lower_def)
  have s2: "ascii_alpha (hd sch)"
    using sch bne hdb alpha by (simp add: lower_def hd_map ascii_alpha_lower_char)
  have s3: "\<forall>c\<in>set sch. c \<in> set scheme_chars"
    using sch chars by (auto simp: lower_def scheme_char_lower)
  have s4: "lower sch = sch" by (simp add: sch lower_idem)
  \<comment> \<open>the network location and what follows it\<close>
  from abs(2) fields(2) have sl: "take 2 url2 = ''//''" by (auto simp: nl_def split: if_splits)
  then have nl: "nl = takeWhile (\<lambda>c. \<not> netloc_delim c) (drop 2 url2)"
    and url3: "url3 = dropWhile (\<lambda>c. \<not> netloc_delim c) (drop 2 url2)"
    by (simp_all add: nl_def url3_def)
  have n2: "\<forall>c\<in>set nl. \<not> netloc_delim c" unfolding nl by (auto dest: set_takeWhileD)
  have sub2: "set url2 \<subseteq> set url1" using hs set_after by (auto simp: url2_def)
  have subnl: "set nl \<subseteq> set url1"
    unfolding nl using sub2 by (auto dest!: set_takeWhileD in_set_dropD)
  have sub3: "set url3 \<subseteq> set url1"
    unfolding url3 using sub2 by (auto dest!: set_dropWhileD in_set_dropD)
  have hd3: "url3 = [] \<or> netloc_delim (hd url3)"
    unfolding url3 using hd_dropWhile [of "\<lambda>c. \<not> netloc_delim c" "drop 2 url2"] by auto
  \<comment> \<open>the path before the parameters are split off\<close>
  have u5a: "CHR ''?'' \<notin> set u5" unfolding u5_def by (rule before_not_mem)
  have u5b: "CHR ''#'' \<notin> set u5"
    unfolding u5_def using set_before before_not_mem by (metis subsetD)
  have u5c: "set u5 \<subseteq> set url1"
    unfolding u5_def using set_before sub3 by (metis subset_trans)
  have u5d: "u5 = [] \<or> hd u5 = CHR ''/''"
  proof (cases "u5 = []")
    case False
    then have b4: "before CHR ''#'' url3 \<noteq> []" by (auto simp: u5_def before_def)
    then have u3: "url3 \<noteq> []" by (auto simp: before_def)
    have "hd (before CHR ''#'' url3) = hd url3" using b4 by (cases url3) (auto simp: before_def split: if_splits)
    moreover have "hd u5 = hd (before CHR ''#'' url3)"
      using False by (cases "before CHR ''#'' url3") (auto simp: u5_def before_def split: if_splits)
    ultimately have h: "hd u5 = hd url3" by simp
    have "hd u5 \<noteq> CHR ''?''" using False u5a by (cases u5) auto
    moreover have "hd u5 \<noteq> CHR ''#''" using False u5b by (cases u5) auto
    moreover have "netloc_delim (hd url3)" using hd3 u3 by simp
    ultimately show ?thesis using h by (auto simp: netloc_delim_def)
  qed simp
  have q1: "CHR ''#'' \<notin> set qu"
    unfolding qu_def using set_after before_not_mem by (metis subsetD)
  have q2: "set qu \<subseteq> set url1"
    unfolding qu_def using set_after set_before sub3 by (metis subset_trans)
  \<comment> \<open>the path\<close>
  have "\<exists>suffix. u5 = pth @ suffix"
  proof (cases "sch \<in> set uses_params \<and> CHR '';'' \<in> set u5")
    case True
    then show ?thesis using splitparams_prefix [of u5] by (simp add: pth_def)
  next
    case False
    then have "pth = u5" unfolding pth_def by (rule if_not_P)
    then have "u5 = pth @ []" by simp
    then show ?thesis by blast
  qed
  then obtain suffix where pre: "u5 = pth @ suffix" by blast
  let ?p = "rstrip (\<lambda>c. c = CHR ''/'') pth"
  have psub: "set ?p \<subseteq> set pth" by (rule set_rstrip)
  have pth_sub: "set pth \<subseteq> set u5" using pre by auto
  have p1: "?p = [] \<or> hd ?p = CHR ''/''"
  proof (cases "?p = []")
    case False
    then have "pth \<noteq> []" by (auto simp: rstrip_def)
    then have "hd pth = hd u5" "u5 \<noteq> []" using pre by auto
    with u5d rstrip_hd [OF False] show ?thesis by simp
  qed simp
  have p2: "CHR ''?'' \<notin> set ?p" using psub pth_sub u5a by blast
  have p3: "CHR ''#'' \<notin> set ?p" using psub pth_sub u5b by blast
  have p4: "CHR '';'' \<notin> set ?p" using psub semi fields(3) by blast
  have safe1: "\<forall>c\<in>set url1. \<not> unsafe_url_byte c" by (simp add: url1_def)
  have safe: "\<forall>c\<in>set (nl @ ?p @ qu). \<not> unsafe_url_byte c"
  proof
    fix c assume "c \<in> set (nl @ ?p @ qu)"
    then have "c \<in> set url1" using subnl psub pth_sub u5c q2 by auto
    with safe1 show "\<not> unsafe_url_byte c" by blast
  qed
  let ?v = "sch @ ''://'' @ nl @ ?p @ (if qu \<noteq> [] then ''?'' @ qu else [])"
  from v parsed fields have veq: "v = ?v" by (auto simp: normalize_url_def Let_def)
  have "urlsplit bh ?v = Some (sch, nl, ?p, qu, [])"
    by (rule urlsplit_canonical [OF s1 s2 s3 s4 ok n2 p1 p2 p3 q1 safe])
  then have "urlparse bh ?v =
      Some \<lparr>scheme = sch, netloc = nl, path = ?p, params = [], query = qu, fragment = []\<rparr>"
    using p4 by (simp add: urlparse_def)
  then have "normalize_url bh ?v = Inr ?v"
    by (simp add: normalize_url_def Let_def rstrip_idem)
  with veq show ?thesis by simp
qed

text \<open>
  The canonical form in two steps. \<open>scheme_netloc\<close> is what \<open>urlsplit\<close> reads from the cleaned
  URL up to the network location: the scheme, the network location and the rest, or \<open>None\<close>
  for the \<open>ValueError\<close>. \<open>canonical_of\<close> is what \<open>urlsplit\<close>, \<open>urlparse\<close> and \<open>normalize_url\<close>
  make of the three.
\<close>

definition scheme_netloc :: "(string \<Rightarrow> bool) \<Rightarrow> string \<Rightarrow> (string \<times> string \<times> string) option" where
  "scheme_netloc bh url1 =
     (let sch = (if has_scheme url1 then lower (before CHR '':'' url1) else []);
          url2 = (if has_scheme url1 then after CHR '':'' url1 else url1);
          nl = (if take 2 url2 = ''//'' then takeWhile (\<lambda>c. \<not> netloc_delim c) (drop 2 url2) else []);
          url3 = (if take 2 url2 = ''//'' then dropWhile (\<lambda>c. \<not> netloc_delim c) (drop 2 url2) else url2)
      in if \<not> netloc_ok bh nl then None else Some (sch, nl, url3))"

definition canonical_of :: "string \<times> string \<times> string \<Rightarrow> string" where
  "canonical_of x =
     (case x of (sch, nl, url3) \<Rightarrow>
        let u5 = before CHR ''?'' (before CHR ''#'' url3);
            qu = after CHR ''?'' (before CHR ''#'' url3);
            pth = (if sch \<in> set uses_params \<and> CHR '';'' \<in> set u5 then fst (splitparams u5) else u5);
            normalized = sch @ ''://'' @ nl @ rstrip (\<lambda>c. c = CHR ''/'') pth
        in if qu \<noteq> [] then normalized @ ''?'' @ qu else normalized)"

lemma urlsplit_scheme_netloc:
  "urlsplit bh u =
     (case scheme_netloc bh (filter (\<lambda>c. \<not> unsafe_url_byte c) (lstrip c0_control_or_space u)) of
        None \<Rightarrow> None
      | Some (sch, nl, url3) \<Rightarrow>
          Some (sch, nl, before CHR ''?'' (before CHR ''#'' url3),
                after CHR ''?'' (before CHR ''#'' url3), after CHR ''#'' url3))"
  unfolding urlsplit_eq scheme_netloc_def Let_def by simp

lemma normalize_url_scheme_netloc:
  "normalize_url bh u =
     (case scheme_netloc bh (filter (\<lambda>c. \<not> unsafe_url_byte c) (lstrip c0_control_or_space u)) of
        None \<Rightarrow> Inl ValueError
      | Some x \<Rightarrow> Inr (canonical_of x))"
proof (cases "scheme_netloc bh (filter (\<lambda>c. \<not> unsafe_url_byte c) (lstrip c0_control_or_space u))")
  case None
  then show ?thesis by (simp add: normalize_url_def urlparse_def urlsplit_scheme_netloc)
next
  case (Some x)
  obtain sch nl url3 where x: "x = (sch, nl, url3)" by (cases x) auto
  show ?thesis
    unfolding normalize_url_def urlparse_def urlsplit_scheme_netloc Some x canonical_of_def
    by (simp add: Let_def split: prod.splits)
qed

lemma has_scheme_tail:
  assumes "c \<notin> set scheme_chars" "c \<noteq> CHR '':''"
  shows "has_scheme (x @ c # r) = has_scheme x"
proof (cases "CHR '':'' \<in> set x")
  case True
  then have b: "before CHR '':'' (x @ c # r) = before CHR '':'' x"
    by (simp add: before_def takeWhile_append1 [where x = "CHR '':''"])
  from True have "x \<noteq> []" by auto
  then have "hd (x @ c # r) = hd x" by simp
  with b True show ?thesis by (simp add: has_scheme_def)
next
  case False
  then have "takeWhile (\<lambda>y. y \<noteq> CHR '':'') (x @ c # r) = x @ c # takeWhile (\<lambda>y. y \<noteq> CHR '':'') r"
    using assms(2) by (induction x) auto
  then have "c \<in> set (before CHR '':'' (x @ c # r))" by (simp add: before_def)
  then have "\<not> list_all (\<lambda>c. c \<in> set scheme_chars) (before CHR '':'' (x @ c # r))"
    using assms(1) by (auto simp: list_all_iff)
  with False show ?thesis by (simp add: has_scheme_def)
qed

lemma after_tail:
  "c \<in> set x \<Longrightarrow> after c (x @ r) = after c x @ r"
proof -
  assume m: "c \<in> set x"
  then have d: "dropWhile (\<lambda>y. y \<noteq> c) (x @ r) = dropWhile (\<lambda>y. y \<noteq> c) x @ r"
    by (simp add: dropWhile_append1 [where x = c])
  from m have "dropWhile (\<lambda>y. y \<noteq> c) x \<noteq> []" by (simp add: dropWhile_eq_Nil_conv)
  then show ?thesis by (cases "dropWhile (\<lambda>y. y \<noteq> c) x") (simp_all add: after_def d)
qed

lemma take2_tail:
  assumes "c \<noteq> CHR ''/''"
  shows "take 2 (x @ c # r) = ''//'' \<longleftrightarrow> take 2 x = ''//''"
proof (cases x)
  case Nil
  then show ?thesis using assms by simp
next
  case (Cons a y)
  then show ?thesis using assms by (cases y) auto
qed

lemma scheme_netloc_tail:
  assumes "netloc_delim c" "c \<noteq> CHR ''/''"
  shows "scheme_netloc bh (x @ c # r) =
           map_option (\<lambda>(sch, nl, p). (sch, nl, p @ c # r)) (scheme_netloc bh x)"
proof -
  have cs: "c \<notin> set scheme_chars" using assms(1) scheme_char_plain(3) by blast
  have cc: "c \<noteq> CHR '':''" using assms(1) by (auto simp: netloc_delim_def)
  have hs: "has_scheme (x @ c # r) = has_scheme x" by (rule has_scheme_tail [OF cs cc])
  define url2 where "url2 = (if has_scheme x then after CHR '':'' x else x)"
  have u2: "(if has_scheme (x @ c # r) then after CHR '':'' (x @ c # r) else x @ c # r) = url2 @ c # r"
  proof (cases "has_scheme x")
    case True
    then have "CHR '':'' \<in> set x" by (simp add: has_scheme_def)
    from after_tail [OF this] True hs show ?thesis by (simp add: url2_def)
  next
    case False
    with hs show ?thesis by (simp add: url2_def)
  qed
  have b: "(if has_scheme (x @ c # r) then lower (before CHR '':'' (x @ c # r)) else []) =
           (if has_scheme x then lower (before CHR '':'' x) else [])"
  proof (cases "has_scheme x")
    case True
    then have "CHR '':'' \<in> set x" by (simp add: has_scheme_def)
    then have "before CHR '':'' (x @ c # r) = before CHR '':'' x"
      by (simp add: before_def takeWhile_append1 [where x = "CHR '':''"])
    with True hs show ?thesis by simp
  next
    case False
    with hs show ?thesis by simp
  qed
  have t2: "take 2 (url2 @ c # r) = ''//'' \<longleftrightarrow> take 2 url2 = ''//''"
    by (rule take2_tail [OF assms(2)])
  show ?thesis
  proof (cases "take 2 url2 = ''//''")
    case True
    then have len: "2 \<le> length url2" by (cases url2; cases "tl url2"; auto)
    then have d: "drop 2 (url2 @ c # r) = drop 2 url2 @ c # r" by simp
    have tw: "takeWhile (\<lambda>c. \<not> netloc_delim c) (drop 2 url2 @ c # r) =
              takeWhile (\<lambda>c. \<not> netloc_delim c) (drop 2 url2)"
      using assms(1) by (simp add: takeWhile_tail)
    have dw: "dropWhile (\<lambda>c. \<not> netloc_delim c) (drop 2 url2 @ c # r) =
              dropWhile (\<lambda>c. \<not> netloc_delim c) (drop 2 url2) @ c # r"
      using assms(1) by (simp add: dropWhile_append3)
    from True t2 have T': "take 2 (url2 @ c # r) = ''//''" by simp
    show ?thesis
      unfolding scheme_netloc_def Let_def u2 b
      unfolding url2_def [symmetric]
      by (simp only: T' True if_True d tw dw) simp
  next
    case False
    with t2 have F': "take 2 (url2 @ c # r) \<noteq> ''//''" by simp
    show ?thesis
      unfolding scheme_netloc_def Let_def u2 b
      unfolding url2_def [symmetric]
      by (simp only: F' False if_False) simp
  qed
qed

lemma scheme_netloc_subset:
  assumes "scheme_netloc bh x = Some (sch, nl, p)"
  shows "set p \<subseteq> set x"
proof -
  define url2 where "url2 = (if has_scheme x then after CHR '':'' x else x)"
  have sub2: "set url2 \<subseteq> set x" using set_after by (auto simp: url2_def)
  from assms have "p = (if take 2 url2 = ''//''
                        then dropWhile (\<lambda>c. \<not> netloc_delim c) (drop 2 url2) else url2)"
    unfolding scheme_netloc_def Let_def url2_def [symmetric] by (simp split: if_splits)
  then have "set p \<subseteq> set url2"
    by (auto dest!: set_dropWhileD in_set_dropD split: if_splits)
  with sub2 show ?thesis by blast
qed

lemma scheme_netloc_rest:
  assumes "t = [] \<or> hd t = CHR ''?'' \<or> hd t = CHR ''#''"
  shows "scheme_netloc bh (x @ t) = map_option (\<lambda>(sch, nl, p). (sch, nl, p @ t)) (scheme_netloc bh x)"
proof (cases t)
  case Nil
  then show ?thesis by (cases "scheme_netloc bh x") auto
next
  case (Cons c r)
  with assms have "netloc_delim c" "c \<noteq> CHR ''/''" by (auto simp: netloc_delim_def)
  from scheme_netloc_tail [OF this] Cons show ?thesis by simp
qed

lemma scheme_netloc_slash:
  "(case scheme_netloc bh x of
      None \<Rightarrow> scheme_netloc bh (x @ ''/'') = None
    | Some (sch, nl, p) \<Rightarrow>
        scheme_netloc bh (x @ ''/'') = Some (sch, nl, p @ ''/'') \<or>
        (p = ''/'' \<and> scheme_netloc bh (x @ ''/'') = Some (sch, nl, [])))"
proof -
  have hs: "has_scheme (x @ ''/'') = has_scheme x"
  proof (rule has_scheme_tail)
    show "CHR ''/'' \<notin> set scheme_chars" using scheme_char_plain(3) [of "CHR ''/''"]
      by (auto simp: netloc_delim_def)
  qed simp
  define url2 where "url2 = (if has_scheme x then after CHR '':'' x else x)"
  have u2: "(if has_scheme (x @ ''/'') then after CHR '':'' (x @ ''/'') else x @ ''/'') = url2 @ ''/''"
  proof (cases "has_scheme x")
    case True
    then have "CHR '':'' \<in> set x" by (simp add: has_scheme_def)
    from after_tail [OF this] True hs show ?thesis by (simp add: url2_def)
  next
    case False
    with hs show ?thesis by (simp add: url2_def)
  qed
  have b: "(if has_scheme (x @ ''/'') then lower (before CHR '':'' (x @ ''/'')) else []) =
           (if has_scheme x then lower (before CHR '':'' x) else [])"
  proof (cases "has_scheme x")
    case True
    then have "CHR '':'' \<in> set x" by (simp add: has_scheme_def)
    then have "before CHR '':'' (x @ ''/'') = before CHR '':'' x"
      by (simp add: before_def takeWhile_append1 [where x = "CHR '':''"])
    with True hs show ?thesis by simp
  next
    case False
    with hs show ?thesis by simp
  qed
  have delim: "netloc_delim CHR ''/''" by (simp add: netloc_delim_def)
  have ok0: "netloc_ok bh []" by (simp add: netloc_ok_def)
  consider (net) "take 2 url2 = ''//''" | (one) "url2 = ''/''"
    | (none) "take 2 url2 \<noteq> ''//''" "take 2 (url2 @ ''/'') \<noteq> ''//''"
  proof (cases url2)
    case Nil
    then show ?thesis using that(3) by simp
  next
    case (Cons a y)
    then show ?thesis using that by (cases y) auto
  qed
  then show ?thesis
  proof cases
    case net
    then have len: "2 \<le> length url2" by (cases url2; cases "tl url2"; auto)
    then have d: "drop 2 (url2 @ ''/'') = drop 2 url2 @ ''/''" by simp
    from net len have T': "take 2 (url2 @ ''/'') = ''//''" by simp
    have tw: "takeWhile (\<lambda>c. \<not> netloc_delim c) (drop 2 url2 @ ''/'') =
              takeWhile (\<lambda>c. \<not> netloc_delim c) (drop 2 url2)"
      using delim by (simp add: takeWhile_tail)
    have dw: "dropWhile (\<lambda>c. \<not> netloc_delim c) (drop 2 url2 @ ''/'') =
              dropWhile (\<lambda>c. \<not> netloc_delim c) (drop 2 url2) @ ''/''"
      using delim by (simp add: dropWhile_append3)
    show ?thesis
      unfolding scheme_netloc_def Let_def u2 b
      unfolding url2_def [symmetric]
      by (simp only: T' net if_True d tw dw) simp
  next
    case one
    show ?thesis
      unfolding scheme_netloc_def Let_def u2 b
      unfolding url2_def [symmetric]
      by (simp add: one ok0)
  next
    case none
    show ?thesis
      unfolding scheme_netloc_def Let_def u2 b
      unfolding url2_def [symmetric]
      by (simp only: none if_False) (simp add: ok0)
  qed
qed

lemma path_query_rest:
  assumes "CHR ''?'' \<notin> set p" "CHR ''#'' \<notin> set p"
    and "t = [] \<or> hd t = CHR ''?'' \<or> hd t = CHR ''#''"
  shows "before CHR ''?'' (before CHR ''#'' (p @ t)) = p"
    and "after CHR ''?'' (before CHR ''#'' (p @ t)) = after CHR ''?'' (before CHR ''#'' t)"
proof -
  have bh: "before CHR ''#'' (p @ t) = p @ before CHR ''#'' t"
    unfolding before_def using assms(2) by (induction p) auto
  have rest: "before CHR ''#'' t = [] \<or> hd (before CHR ''#'' t) = CHR ''?''"
    using assms(3) by (cases t) (auto simp: before_def)
  show "before CHR ''?'' (before CHR ''#'' (p @ t)) = p"
    unfolding bh using rest assms(1)
    by (cases "before CHR ''#'' t") (auto simp: before_none before_append)
  show "after CHR ''?'' (before CHR ''#'' (p @ t)) = after CHR ''?'' (before CHR ''#'' t)"
  proof (cases "before CHR ''#'' t")
    case Nil
    then show ?thesis unfolding bh using assms(1) by (simp add: after_none)
  next
    case (Cons c r)
    with rest have c: "c = CHR ''?''" by simp
    have "after CHR ''?'' (CHR ''?'' # r) = r" by (simp add: after_def)
    with Cons c show ?thesis unfolding bh using after_append [OF assms(1), of r] by simp
  qed
qed

lemma canonical_of_rest:
  assumes "CHR ''?'' \<notin> set p" "CHR ''#'' \<notin> set p" "CHR '';'' \<notin> set p"
    and "t = [] \<or> hd t = CHR ''?'' \<or> hd t = CHR ''#''"
  shows "canonical_of (sch, nl, p @ t) =
           (let normalized = sch @ ''://'' @ nl @ rstrip (\<lambda>c. c = CHR ''/'') p;
                qu = after CHR ''?'' (before CHR ''#'' t)
            in if qu \<noteq> [] then normalized @ ''?'' @ qu else normalized)"
  unfolding canonical_of_def
  by (simp add: path_query_rest [OF assms(1,2,4)] assms(3) Let_def)

lemma clean_rest:
  assumes "t = [] \<or> hd t = CHR ''?'' \<or> hd t = CHR ''#'' \<or> hd t = CHR ''/''"
  shows "filter (\<lambda>c. \<not> unsafe_url_byte c) (lstrip c0_control_or_space (s @ t)) =
           filter (\<lambda>c. \<not> unsafe_url_byte c) (lstrip c0_control_or_space s) @
           filter (\<lambda>c. \<not> unsafe_url_byte c) t"
proof (cases t)
  case Nil
  then show ?thesis by simp
next
  case (Cons c r)
  with assms have "\<not> c0_control_or_space c" by (auto simp: c0_control_or_space_def)
  then have "lstrip c0_control_or_space (s @ c # r) = lstrip c0_control_or_space s @ c # r"
    by (simp add: lstrip_def dropWhile_append3)
  with Cons show ?thesis by simp
qed

lemma clean_hd:
  assumes "t = [] \<or> hd t = CHR ''?'' \<or> hd t = CHR ''#''"
  shows "filter (\<lambda>c. \<not> unsafe_url_byte c) t = [] \<or>
         hd (filter (\<lambda>c. \<not> unsafe_url_byte c) t) = CHR ''?'' \<or>
         hd (filter (\<lambda>c. \<not> unsafe_url_byte c) t) = CHR ''#''"
  using assms by (cases t) (auto simp: unsafe_url_byte_def)

lemma set_clean: "set (filter (\<lambda>c. \<not> unsafe_url_byte c) (lstrip c0_control_or_space s)) \<subseteq> set s"
  by (auto simp: lstrip_def dest: set_dropWhileD)

lemma normalize_url_fragment:
  assumes "CHR ''#'' \<notin> set u"
  shows "normalize_url bh (u @ CHR ''#'' # f) = normalize_url bh u"
proof -
  let ?clean = "\<lambda>s. filter (\<lambda>c. \<not> unsafe_url_byte c) (lstrip c0_control_or_space s)"
  define u1 where "u1 = ?clean u"
  define t where "t = filter (\<lambda>c. \<not> unsafe_url_byte c) (CHR ''#'' # f)"
  have t: "t = CHR ''#'' # filter (\<lambda>c. \<not> unsafe_url_byte c) f"
    by (simp add: t_def unsafe_url_byte_def)
  have c: "?clean (u @ CHR ''#'' # f) = u1 @ t"
    unfolding u1_def t_def by (rule clean_rest) simp
  have nh: "CHR ''#'' \<notin> set u1" using assms set_clean [of u] by (auto simp: u1_def)
  have r: "scheme_netloc bh (u1 @ t) =
             map_option (\<lambda>(sch, nl, p). (sch, nl, p @ t)) (scheme_netloc bh u1)"
    by (rule scheme_netloc_rest) (simp add: t)
  show ?thesis
  proof (cases "scheme_netloc bh u1")
    case None
    with r show ?thesis
      unfolding normalize_url_scheme_netloc c u1_def [symmetric] by simp
  next
    case (Some x)
    obtain sch nl p where x: "x = (sch, nl, p)" by (cases x) auto
    from scheme_netloc_subset [OF Some [unfolded x]] nh have "CHR ''#'' \<notin> set p" by blast
    then have "before CHR ''#'' (p @ t) = before CHR ''#'' p"
      by (simp add: t before_append before_none)
    then have "canonical_of (sch, nl, p @ t) = canonical_of (sch, nl, p)"
      by (simp add: canonical_of_def)
    with r Some x show ?thesis
      unfolding normalize_url_scheme_netloc c u1_def [symmetric] by simp
  qed
qed

lemma rstrip_slash: "rstrip (\<lambda>c. c = CHR ''/'') (p @ ''/'') = rstrip (\<lambda>c. c = CHR ''/'') p"
  by (simp add: rstrip_def)

lemma normalize_url_trailing_slash:
  assumes s: "CHR '';'' \<notin> set s" "CHR ''?'' \<notin> set s" "CHR ''#'' \<notin> set s"
    and t: "t = [] \<or> hd t = CHR ''?'' \<or> hd t = CHR ''#''"
  shows "normalize_url bh (s @ ''/'' @ t) = normalize_url bh (s @ t)"
proof -
  let ?clean = "\<lambda>s. filter (\<lambda>c. \<not> unsafe_url_byte c) (lstrip c0_control_or_space s)"
  define s1 where "s1 = ?clean s"
  define t1 where "t1 = filter (\<lambda>c. \<not> unsafe_url_byte c) t"
  have t1: "t1 = [] \<or> hd t1 = CHR ''?'' \<or> hd t1 = CHR ''#''"
    unfolding t1_def by (rule clean_hd [OF t])
  have c0: "?clean (s @ t) = s1 @ t1"
    unfolding s1_def t1_def using t by (intro clean_rest) auto
  have "?clean (s @ ''/'' @ t) = s1 @ filter (\<lambda>c. \<not> unsafe_url_byte c) (''/'' @ t)"
    unfolding s1_def by (rule clean_rest) simp
  then have c1: "?clean (s @ ''/'' @ t) = (s1 @ ''/'') @ t1"
    by (simp add: t1_def unsafe_url_byte_def)
  have sub: "set s1 \<subseteq> set s" unfolding s1_def by (rule set_clean)
  have r0: "scheme_netloc bh (s1 @ t1) =
              map_option (\<lambda>(sch, nl, p). (sch, nl, p @ t1)) (scheme_netloc bh s1)"
    by (rule scheme_netloc_rest [OF t1])
  have r1: "scheme_netloc bh ((s1 @ ''/'') @ t1) =
              map_option (\<lambda>(sch, nl, p). (sch, nl, p @ t1)) (scheme_netloc bh (s1 @ ''/''))"
    by (rule scheme_netloc_rest [OF t1])
  show ?thesis
  proof (cases "scheme_netloc bh s1")
    case None
    with scheme_netloc_slash [of bh s1] have "scheme_netloc bh (s1 @ ''/'') = None" by simp
    with None r0 r1 show ?thesis
      unfolding normalize_url_scheme_netloc c0 c1 by simp
  next
    case (Some x)
    obtain sch nl p where x: "x = (sch, nl, p)" by (cases x) auto
    from scheme_netloc_subset [OF Some [unfolded x]] sub s
    have p: "CHR ''?'' \<notin> set p" "CHR ''#'' \<notin> set p" "CHR '';'' \<notin> set p" by blast+
    from scheme_netloc_slash [of bh s1] Some x
    consider "scheme_netloc bh (s1 @ ''/'') = Some (sch, nl, p @ ''/'')"
      | "p = ''/''" "scheme_netloc bh (s1 @ ''/'') = Some (sch, nl, [])"
      by auto
    then have "\<exists>p'. scheme_netloc bh (s1 @ ''/'') = Some (sch, nl, p') \<and>
                 CHR ''?'' \<notin> set p' \<and> CHR ''#'' \<notin> set p' \<and> CHR '';'' \<notin> set p' \<and>
                 rstrip (\<lambda>c. c = CHR ''/'') p' = rstrip (\<lambda>c. c = CHR ''/'') p"
    proof cases
      case 1
      with p show ?thesis by (simp add: rstrip_slash)
    next
      case 2
      then show ?thesis by (simp add: rstrip_def)
    qed
    then obtain p' where p': "scheme_netloc bh (s1 @ ''/'') = Some (sch, nl, p')"
      "CHR ''?'' \<notin> set p'" "CHR ''#'' \<notin> set p'" "CHR '';'' \<notin> set p'"
      "rstrip (\<lambda>c. c = CHR ''/'') p' = rstrip (\<lambda>c. c = CHR ''/'') p" by blast
    have "canonical_of (sch, nl, p' @ t1) = canonical_of (sch, nl, p @ t1)"
      unfolding canonical_of_rest [OF p'(2,3,4) t1] canonical_of_rest [OF p t1] p'(5) ..
    with r0 r1 Some x p'(1) show ?thesis
      unfolding normalize_url_scheme_netloc c0 c1 by simp
  qed
qed

text \<open>
  C4 (as the code has it). \<open>normalize_url\<close> is idempotent on every URL with a scheme and a
  host whose path has no semicolon. A URL without \<open>#\<close> and the same URL followed by \<open>#\<close> and
  any fragment have the same canonical form. A URL part \<open>s\<close> without semicolon, \<open>?\<close> and \<open>#\<close>
  has the same canonical form with and without a slash after it, also when a query or a
  fragment follows. In particular \<open>https://a.com/x/\<close> and \<open>https://a.com/x\<close> have the same
  canonical form.
\<close>

theorem normalize_url_canonical:
  "(urlparse bh u = Some parsed \<and> scheme parsed \<noteq> [] \<and> netloc parsed \<noteq> [] \<and>
      CHR '';'' \<notin> set (path parsed) \<and> normalize_url bh u = Inr v \<longrightarrow>
      normalize_url bh v = Inr v)
   \<and> (CHR ''#'' \<notin> set w \<longrightarrow> normalize_url bh (w @ CHR ''#'' # f) = normalize_url bh w)
   \<and> (CHR '';'' \<notin> set s \<and> CHR ''?'' \<notin> set s \<and> CHR ''#'' \<notin> set s \<and>
      (t = [] \<or> hd t = CHR ''?'' \<or> hd t = CHR ''#'') \<longrightarrow>
      normalize_url bh (s @ ''/'' @ t) = normalize_url bh (s @ t))
   \<and> normalize_url bh ''https://a.com/x/'' = normalize_url bh ''https://a.com/x''"
proof (intro conjI impI)
  assume "urlparse bh u = Some parsed \<and> scheme parsed \<noteq> [] \<and> netloc parsed \<noteq> [] \<and>
      CHR '';'' \<notin> set (path parsed) \<and> normalize_url bh u = Inr v"
  then show "normalize_url bh v = Inr v"
    using normalize_url_idempotent_absolute by blast
next
  assume "CHR ''#'' \<notin> set w"
  then show "normalize_url bh (w @ CHR ''#'' # f) = normalize_url bh w"
    by (rule normalize_url_fragment)
next
  assume "CHR '';'' \<notin> set s \<and> CHR ''?'' \<notin> set s \<and> CHR ''#'' \<notin> set s \<and>
      (t = [] \<or> hd t = CHR ''?'' \<or> hd t = CHR ''#'')"
  then show "normalize_url bh (s @ ''/'' @ t) = normalize_url bh (s @ t)"
    using normalize_url_trailing_slash by blast
next
  show "normalize_url bh ''https://a.com/x/'' = normalize_url bh ''https://a.com/x''"
    using normalize_url_trailing_slash [where bh = bh and s = "''https://a.com/x''" and t = "[]"]
    by simp
qed

theorem normalize_url_canonical_witness:
  "normalize_url (\<lambda>_. True) ''HTTPS://a.com/docs/?q=1#f'' = Inr ''https://a.com/docs?q=1''
   \<and> normalize_url (\<lambda>_. True) ''https://a.com/docs?q=1'' = Inr ''https://a.com/docs?q=1''
   \<and> normalize_url (\<lambda>_. True) ''https://a.com/x#top'' = normalize_url (\<lambda>_. True) ''https://a.com/x''
   \<and> normalize_url (\<lambda>_. True) ''https://a.com/docs/?q=1'' =
       normalize_url (\<lambda>_. True) ''https://a.com/docs?q=1''"
proof -
  let ?bh = "\<lambda>_::string. True"
  let ?p = "\<lparr>scheme = ''https'', netloc = ''a.com'', path = ''/docs/'', params = [],
             query = ''q=1'', fragment = ''f''\<rparr>"
  have parsed: "urlparse ?bh ''HTTPS://a.com/docs/?q=1#f'' = Some ?p"
    by code_simp
  have canon: "normalize_url ?bh ''HTTPS://a.com/docs/?q=1#f'' = Inr ''https://a.com/docs?q=1''"
    by code_simp
  note inst = normalize_url_canonical
    [where bh = ?bh and u = "''HTTPS://a.com/docs/?q=1#f''" and parsed = ?p
       and v = "''https://a.com/docs?q=1''" and w = "''https://a.com/x''" and f = "''top''"
       and s = "''https://a.com/docs''" and t = "''?q=1''"]
  from inst parsed canon
  have one: "normalize_url ?bh ''https://a.com/docs?q=1'' = Inr ''https://a.com/docs?q=1''"
    by simp
  from inst
  have two: "normalize_url ?bh ''https://a.com/x#top'' = normalize_url ?bh ''https://a.com/x''"
    by simp
  from inst
  have three: "normalize_url ?bh ''https://a.com/docs/?q=1'' = normalize_url ?bh ''https://a.com/docs?q=1''"
    by simp
  from canon one two three show ?thesis by simp
qed

text \<open>
  With a semicolon in the last segment of the path the canonical form is not a fixed point:
  \<open>https://a.com/x;a/\<close> gives \<open>https://a.com/x;a\<close>, in which \<open>urlparse\<close> reads \<open>a\<close> as
  parameters, and that gives \<open>https://a.com/x\<close>. The two URLs \<open>https://a.com/x;a/\<close> and
  \<open>https://a.com/x;a\<close> differ only by the trailing slash and have different canonical forms.
\<close>

theorem normalize_url_counterexample:
  "normalize_url (\<lambda>_. True) ''https://a.com/x;a/'' = Inr ''https://a.com/x;a''
   \<and> normalize_url (\<lambda>_. True) ''https://a.com/x;a'' = Inr ''https://a.com/x''
   \<and> ''https://a.com/x;a'' \<noteq> ''https://a.com/x''"
  by code_simp

text \<open>A URL without scheme is another one: \<open>x\<close> gives \<open>://x\<close>, which gives \<open>://://x\<close>.\<close>

lemma normalize_url_no_scheme:
  "normalize_url (\<lambda>_. True) ''x'' = Inr ''://x'' \<and>
   normalize_url (\<lambda>_. True) ''://x'' = Inr ''://://x''"
  by code_simp

section \<open>The page budget\<close>

text \<open>
  The pages that a crawl can reach. \<open>has_content\<close> and \<open>links_of\<close> read what \<open>scrape_page\<close>
  returns for a URL. \<open>reach u d\<close>: the URL \<open>u\<close> is found at depth \<open>d\<close> on a way from the start
  URL along which every page passes the checks, has content and permits queueing.
  \<open>bfs_order\<close>, \<open>closure_inv\<close> and \<open>pages_inv\<close> are the invariants of the breadth-first loop:
  depths in the log and the queue never decrease and span at most one level in the queue;
  the links of every expanded page are logged or queued, at most one level deeper; every
  visited URL with content has its page.
\<close>

definition has_content :: "(string \<Rightarrow> string option \<Rightarrow> scrape_result) \<Rightarrow> string \<Rightarrow> bool" where
  "has_content sp u = (case sp u None of (title, content, links, success) \<Rightarrow> success \<and> strip content \<noteq> [])"

definition links_of :: "(string \<Rightarrow> string option \<Rightarrow> scrape_result) \<Rightarrow> string \<Rightarrow> link list" where
  "links_of sp u = (case sp u None of (title, content, links, success) \<Rightarrow> links)"

inductive reach ::
  "(string \<Rightarrow> bool) \<Rightarrow> (string \<Rightarrow> string option \<Rightarrow> scrape_result) \<Rightarrow> int option \<Rightarrow> string option
     \<Rightarrow> string \<Rightarrow> string \<Rightarrow> string \<Rightarrow> int \<Rightarrow> bool"
  for bh sp md pp bd start where
    reach_start: "reach bh sp md pp bd start start 0"
  | reach_link: "reach bh sp md pp bd start u d \<Longrightarrow> passes_checks bh bd pp u \<Longrightarrow> has_content sp u \<Longrightarrow>
       depth_permits md d \<Longrightarrow> l \<in> set (links_of sp u) \<Longrightarrow>
       normalize_url bh (link_url l) = Inr v \<Longrightarrow> reach bh sp md pp bd start v (d + 1)"

definition depth_of :: "string \<times> int \<times> string option \<Rightarrow> int" where
  "depth_of e = fst (snd e)"

definition bfs_order :: "crawl_state \<Rightarrow> bool" where
  "bfs_order t =
     (sorted (map depth_of (dequeued t @ to_visit t)) \<and>
      (to_visit t \<noteq> [] \<longrightarrow> depth_of (last (to_visit t)) \<le> depth_of (hd (to_visit t)) + 1))"

lemma sorted_le_last: "sorted xs \<Longrightarrow> x \<in> set xs \<Longrightarrow> (x::int) \<le> last xs"
  by (induction xs) auto

lemma bfs_order_bounds:
  assumes "bfs_order t" and "to_visit t = (url, depth, referer) # rest"
  shows "\<forall>e\<in>set (dequeued t). depth_of e \<le> depth"
    and "\<forall>e\<in>set (to_visit t). depth \<le> depth_of e \<and> depth_of e \<le> depth + 1"
proof -
  from assms have srt: "sorted (map depth_of (dequeued t) @ depth # map depth_of rest)"
    and lst: "depth_of (last ((url, depth, referer) # rest)) \<le> depth + 1"
    by (auto simp: bfs_order_def depth_of_def)
  from srt show "\<forall>e\<in>set (dequeued t). depth_of e \<le> depth"
    by (auto simp: sorted_append)
  from srt have ge: "\<forall>e\<in>set rest. depth \<le> depth_of e"
    by (auto simp: sorted_append)
  from srt have srt2: "sorted (map depth_of ((url, depth, referer) # rest))"
    by (auto simp: sorted_append depth_of_def)
  have "\<forall>e\<in>set ((url, depth, referer) # rest). depth_of e \<le> depth_of (last ((url, depth, referer) # rest))"
  proof
    fix e assume "e \<in> set ((url, depth, referer) # rest)"
    then have "depth_of e \<in> set (map depth_of ((url, depth, referer) # rest))" by (simp only: set_map) blast
    from sorted_le_last [OF srt2 this]
    have "depth_of e \<le> last (map depth_of ((url, depth, referer) # rest))" .
    also have "\<dots> = depth_of (last ((url, depth, referer) # rest))"
      by (rule last_map) simp
    finally show "depth_of e \<le> depth_of (last ((url, depth, referer) # rest))" .
  qed
  with lst have "\<forall>e\<in>set ((url, depth, referer) # rest). depth_of e \<le> depth + 1" by force
  with ge assms(2) show "\<forall>e\<in>set (to_visit t). depth \<le> depth_of e \<and> depth_of e \<le> depth + 1"
    by (auto simp: depth_of_def)
qed


lemma sorted_const: "\<forall>x\<in>set xs. f x = (c::int) \<Longrightarrow> sorted (map f xs)"
  by (induction xs) auto

lemma sorted_map_append:
  fixes f :: "'a \<Rightarrow> int"
  assumes "\<forall>x\<in>set xs. \<forall>y\<in>set ys. f x \<le> f y" and "sorted (map f xs)" and "sorted (map f ys)"
  shows "sorted (map f (xs @ ys))"
  using assms by (auto simp: sorted_append)

lemma bfs_order_step:
  assumes ord: "bfs_order t" and tv: "to_visit t = (url, depth, referer) # rest"
    and log: "dequeued t' = dequeued t @ [(url, depth, referer)]"
    and q: "to_visit t' = rest @ added" and newd: "\<forall>e\<in>set added. depth_of e = depth + 1"
  shows "bfs_order t'"
proof -
  from ord tv have srt: "sorted (map depth_of (dequeued t @ (url, depth, referer) # rest))"
    by (simp add: bfs_order_def)
  from bfs_order_bounds [OF ord tv]
  have lo: "\<forall>e\<in>set (dequeued t). depth_of e \<le> depth"
    and qb: "\<forall>e\<in>set ((url, depth, referer) # rest). depth \<le> depth_of e \<and> depth_of e \<le> depth + 1"
    using tv by simp_all
  have all: "dequeued t' @ to_visit t' = (dequeued t @ (url, depth, referer) # rest) @ added"
    by (simp add: log q)
  have "\<forall>x\<in>set (dequeued t @ (url, depth, referer) # rest). \<forall>y\<in>set added. depth_of x \<le> depth_of y"
    using lo qb newd by fastforce
  then have "sorted (map depth_of ((dequeued t @ (url, depth, referer) # rest) @ added))"
    using srt sorted_const [OF newd] by (rule sorted_map_append)
  then have one: "sorted (map depth_of (dequeued t' @ to_visit t'))" by (simp only: all)
  have two: "to_visit t' \<noteq> [] \<longrightarrow> depth_of (last (to_visit t')) \<le> depth_of (hd (to_visit t')) + 1"
  proof
    assume ne: "to_visit t' \<noteq> []"
    have up: "\<forall>e\<in>set (to_visit t'). depth \<le> depth_of e \<and> depth_of e \<le> depth + 1"
      using qb newd by (auto simp: q)
    from ne have "last (to_visit t') \<in> set (to_visit t')" "hd (to_visit t') \<in> set (to_visit t')"
      by simp_all
    with up have "depth_of (last (to_visit t')) \<le> depth + 1" "depth \<le> depth_of (hd (to_visit t'))"
      by blast+
    then show "depth_of (last (to_visit t')) \<le> depth_of (hd (to_visit t')) + 1" by linarith
  qed
  from one two show ?thesis by (simp add: bfs_order_def)
qed

lemma crawl_iteration_log:
  assumes "crawl_iteration bh sp md pp bd s = Inr s'"
  shows "\<exists>url depth referer rest added.
           to_visit s = (url, depth, referer) # rest \<and>
           dequeued s' = dequeued s @ [(url, depth, referer)] \<and>
           to_visit s' = rest @ added \<and> (\<forall>e\<in>set added. depth_of e = depth + 1)"
  using assms
proof (cases rule: crawl_iteration_cases)
  case (discard url depth referer rest)
  then have "to_visit s = (url, depth, referer) # rest \<and>
           dequeued s' = dequeued s @ [(url, depth, referer)] \<and>
           to_visit s' = rest @ [] \<and> (\<forall>e\<in>set []. depth_of e = depth + 1)" by simp
  then show ?thesis by blast
next
  case (no_page url depth referer rest title content links success)
  then have "to_visit s = (url, depth, referer) # rest \<and>
           dequeued s' = dequeued s @ [(url, depth, referer)] \<and>
           to_visit s' = rest @ [] \<and> (\<forall>e\<in>set []. depth_of e = depth + 1)" by simp
  then show ?thesis by blast
next
  case (page_only url depth referer rest title content links)
  then have "to_visit s = (url, depth, referer) # rest \<and>
           dequeued s' = dequeued s @ [(url, depth, referer)] \<and>
           to_visit s' = rest @ [] \<and> (\<forall>e\<in>set []. depth_of e = depth + 1)" by simp
  then show ?thesis by blast
next
  case (page_links url depth referer rest title content links)
  from enqueue_links_new [OF page_links(7)] obtain new where
    "to_visit s' = rest @ map (\<lambda>l. (canonical bh l, depth + 1, Some url)) new" by auto
  moreover from enqueue_links_dequeued [OF page_links(7)]
  have "dequeued s' = dequeued s @ [(url, depth, referer)]" by simp
  moreover have "\<forall>e\<in>set (map (\<lambda>l. (canonical bh l, depth + 1, Some url)) new). depth_of e = depth + 1"
    by (auto simp: depth_of_def)
  ultimately have "to_visit s = (url, depth, referer) # rest \<and>
           dequeued s' = dequeued s @ [(url, depth, referer)] \<and>
           to_visit s' = rest @ map (\<lambda>l. (canonical bh l, depth + 1, Some url)) new \<and>
           (\<forall>e\<in>set (map (\<lambda>l. (canonical bh l, depth + 1, Some url)) new). depth_of e = depth + 1)"
    using page_links(1) by simp
  then show ?thesis by blast
qed

lemma crawl_iteration_bfs_order:
  assumes "crawl_iteration bh sp md pp bd s = Inr s'" and "bfs_order s"
  shows "bfs_order s'"
proof -
  from crawl_iteration_log [OF assms(1)] obtain url depth referer rest added where
    "to_visit s = (url, depth, referer) # rest"
    "dequeued s' = dequeued s @ [(url, depth, referer)]"
    "to_visit s' = rest @ added" "\<forall>e\<in>set added. depth_of e = depth + 1" by blast
  with assms(2) show ?thesis by (rule bfs_order_step)
qed

lemma enqueue_links_mono:
  assumes "enqueue_links bh url depth ls s = Inr s'"
  shows "set (to_visit s) \<subseteq> set (to_visit s')"
  using enqueue_links_new [OF assms] by auto

lemma enqueue_links_covers:
  assumes "enqueue_links bh url depth ls s = Inr s'" and "l \<in> set ls"
  shows "\<exists>v. normalize_url bh (link_url l) = Inr v \<and>
             (v \<in> visited s \<or> v \<in> fst ` set (to_visit s'))"
  using assms
proof (induction ls arbitrary: s)
  case Nil
  then show ?case by simp
next
  case (Cons l' ls)
  from Cons.prems(1) obtain n where n: "normalize_url bh (link_url l') = Inr n"
    by (auto split: sum.splits)
  let ?s1 = "s\<lparr>to_visit := to_visit s @ [(n, depth + 1, Some url)], all_links := all_links s @ [l']\<rparr>"
  show ?case
  proof (cases "n \<notin> visited s \<and> n \<notin> set (map fst (to_visit s))")
    case True
    with Cons.prems(1) n have rest: "enqueue_links bh url depth ls ?s1 = Inr s'" by simp
    show ?thesis
    proof (cases "l = l'")
      case True
      have "(n, depth + 1, Some url) \<in> set (to_visit ?s1)" by simp
      with enqueue_links_mono [OF rest] have "(n, depth + 1, Some url) \<in> set (to_visit s')" by blast
      then have "n \<in> fst ` set (to_visit s')" by force
      with n True show ?thesis by blast
    next
      case False
      with Cons.prems(2) have "l \<in> set ls" by simp
      from Cons.IH [OF rest this] show ?thesis by simp
    qed
  next
    case False
    from Cons.prems(1) have rest: "enqueue_links bh url depth ls s = Inr s'"
      by (simp only: enqueue_links.simps n sum.case if_not_P [OF False])
    show ?thesis
    proof (cases "l = l'")
      case True
      from False have "n \<in> visited s \<or> n \<in> fst ` set (to_visit s)" by auto
      with enqueue_links_mono [OF rest] have "n \<in> visited s \<or> n \<in> fst ` set (to_visit s')" by auto
      with n True show ?thesis by blast
    next
      case False
      with Cons.prems(2) have "l \<in> set ls" by simp
      from Cons.IH [OF rest this] show ?thesis by simp
    qed
  qed
qed


definition closed_entry ::
  "(string \<Rightarrow> bool) \<Rightarrow> (string \<Rightarrow> string option \<Rightarrow> scrape_result) \<Rightarrow> int option \<Rightarrow> string option
     \<Rightarrow> string \<Rightarrow> crawl_state \<Rightarrow> string \<times> int \<times> string option \<Rightarrow> bool" where
  "closed_entry bh sp md pp bd t e =
     (fst e \<in> visited t \<longrightarrow> has_content sp (fst e) \<longrightarrow> depth_permits md (depth_of e) \<longrightarrow>
        (\<forall>l\<in>set (links_of sp (fst e)). \<forall>v. normalize_url bh (link_url l) = Inr v \<longrightarrow>
           passes_checks bh bd pp v \<longrightarrow>
           (\<exists>e'\<in>set (dequeued t) \<union> set (to_visit t). fst e' = v \<and> depth_of e' \<le> depth_of e + 1)))"

definition closure_inv ::
  "(string \<Rightarrow> bool) \<Rightarrow> (string \<Rightarrow> string option \<Rightarrow> scrape_result) \<Rightarrow> int option \<Rightarrow> string option
     \<Rightarrow> string \<Rightarrow> crawl_state \<Rightarrow> bool" where
  "closure_inv bh sp md pp bd t = (\<forall>e\<in>set (dequeued t). closed_entry bh sp md pp bd t e)"

definition pages_inv :: "(string \<Rightarrow> string option \<Rightarrow> scrape_result) \<Rightarrow> crawl_state \<Rightarrow> bool" where
  "pages_inv sp t = (\<forall>v\<in>visited t. has_content sp v \<longrightarrow> v \<in> page_url ` set (pages t))"

definition bfs_inv ::
  "(string \<Rightarrow> bool) \<Rightarrow> (string \<Rightarrow> string option \<Rightarrow> scrape_result) \<Rightarrow> int option \<Rightarrow> string option
     \<Rightarrow> string \<Rightarrow> string \<Rightarrow> crawl_state \<Rightarrow> bool" where
  "bfs_inv bh sp md pp bd start t =
     (queue_inv bh bd pp t \<and> bfs_order t \<and> closure_inv bh sp md pp bd t \<and> pages_inv sp t \<and>
      (start, 0, None) \<in> set (dequeued t) \<union> set (to_visit t))"

lemma visited_logged:
  assumes "queue_inv bh bd pp t" and "v \<in> visited t"
  shows "\<exists>e\<in>set (dequeued t). fst e = v"
proof -
  from assms have "v \<in> set (scraped_urls bh bd pp t)" by (simp add: queue_inv_def)
  then show ?thesis by (auto simp: scraped_urls_def)
qed

lemma logged_visited:
  assumes "queue_inv bh bd pp t" and "e \<in> set (dequeued t)" and "passes_checks bh bd pp (fst e)"
  shows "fst e \<in> visited t"
proof -
  from assms(2,3) have "fst e \<in> set (scraped_urls bh bd pp t)" by (auto simp: scraped_urls_def)
  with assms(1) show ?thesis by (simp add: queue_inv_def)
qed

lemma crawl_iteration_bfs_inv:
  assumes step: "crawl_iteration bh sp md pp bd s = Inr s'"
    and indep: "\<forall>u r. sp u r = sp u None"
    and inv: "bfs_inv bh sp md pp bd start s"
  shows "bfs_inv bh sp md pp bd start s'"
proof -
  from inv have qi: "queue_inv bh bd pp s" and bo: "bfs_order s"
    and cl: "closure_inv bh sp md pp bd s" and pg: "pages_inv sp s"
    and st: "(start, 0, None) \<in> set (dequeued s) \<union> set (to_visit s)"
    by (simp_all add: bfs_inv_def)
  have qi': "queue_inv bh bd pp s'" using step qi by (rule crawl_iteration_queue_inv)
  have bo': "bfs_order s'" using step bo by (rule crawl_iteration_bfs_order)
  from crawl_iteration_log [OF step] obtain url depth referer rest added where
    tv: "to_visit s = (url, depth, referer) # rest"
    and lg: "dequeued s' = dequeued s @ [(url, depth, referer)]"
    and tv': "to_visit s' = rest @ added" and ad: "\<forall>e\<in>set added. depth_of e = depth + 1" by blast
  from bfs_order_bounds [OF bo tv]
  have lo: "\<forall>e\<in>set (dequeued s). depth_of e \<le> depth"
    and qb: "\<forall>e\<in>set (to_visit s). depth \<le> depth_of e \<and> depth_of e \<le> depth + 1" by blast+
  have keep: "set (dequeued s) \<union> set (to_visit s) \<subseteq> set (dequeued s') \<union> set (to_visit s')"
    using tv lg tv' by auto
  have qd': "\<forall>e\<in>set (to_visit s'). depth_of e \<le> depth + 1"
    using qb tv tv' ad by auto
  have fresh: "url \<notin> visited s" using qi tv by (auto simp: queue_inv_def)
  have st': "(start, 0, None) \<in> set (dequeued s') \<union> set (to_visit s')" using st keep by blast
  \<comment> \<open>an entry logged earlier whose URL is visited now was visited before\<close>
  have old_visited: "\<And>e. e \<in> set (dequeued s) \<Longrightarrow> fst e \<in> visited s' \<Longrightarrow>
                      visited s' \<subseteq> insert url (visited s) \<Longrightarrow>
                      (url \<in> visited s' \<Longrightarrow> passes_checks bh bd pp url) \<Longrightarrow> fst e \<in> visited s"
  proof -
    fix e assume e: "e \<in> set (dequeued s)" and v: "fst e \<in> visited s'"
      and sub: "visited s' \<subseteq> insert url (visited s)"
      and pc: "url \<in> visited s' \<Longrightarrow> passes_checks bh bd pp url"
    show "fst e \<in> visited s"
    proof (cases "fst e = url")
      case True
      with v pc have "passes_checks bh bd pp (fst e)" by simp
      from logged_visited [OF qi e this] show ?thesis .
    next
      case False
      with v sub show ?thesis by auto
    qed
  qed
  \<comment> \<open>the closure property of the entries logged earlier carries over\<close>
  have old_closure: "\<forall>e\<in>set (dequeued s). closed_entry bh sp md pp bd s' e"
    if sub: "visited s' \<subseteq> insert url (visited s)"
      and pc: "url \<in> visited s' \<Longrightarrow> passes_checks bh bd pp url"
    unfolding closed_entry_def
  proof (intro ballI impI allI)
    fix e l v
    assume e: "e \<in> set (dequeued s)" and ev: "fst e \<in> visited s'" and hc: "has_content sp (fst e)"
      and dp: "depth_permits md (depth_of e)" and l: "l \<in> set (links_of sp (fst e))"
      and n: "normalize_url bh (link_url l) = Inr v" and pv: "passes_checks bh bd pp v"
    from old_visited [OF e ev sub pc] have "fst e \<in> visited s" .
    with cl e hc dp l n pv
    obtain e' where "e' \<in> set (dequeued s) \<union> set (to_visit s)" "fst e' = v"
      "depth_of e' \<le> depth_of e + 1"
      unfolding closure_inv_def closed_entry_def by blast
    with keep show "\<exists>e'\<in>set (dequeued s') \<union> set (to_visit s'). fst e' = v \<and> depth_of e' \<le> depth_of e + 1"
      by blast
  qed
  have closure_step: "closure_inv bh sp md pp bd s'"
    if "\<forall>e\<in>set (dequeued s). closed_entry bh sp md pp bd s' e"
      and "closed_entry bh sp md pp bd s' (url, depth, referer)"
    using that by (simp add: closure_inv_def lg)
  have "closure_inv bh sp md pp bd s' \<and> pages_inv sp s'"
    using step
  proof (cases rule: crawl_iteration_cases)
    case (discard url0 depth0 referer0 rest0)
    with tv have eq: "url0 = url" "depth0 = depth" "referer0 = referer" "rest0 = rest" by auto
    from discard(3) have vs: "visited s' = visited s" and ps: "pages s' = pages s" by simp_all
    have "closure_inv bh sp md pp bd s'"
    proof (rule closure_step)
      show "\<forall>e\<in>set (dequeued s). closed_entry bh sp md pp bd s' e"
        by (rule old_closure) (use vs fresh in auto)
      show "closed_entry bh sp md pp bd s' (url, depth, referer)"
        using vs fresh by (simp add: closed_entry_def)
    qed
    moreover have "pages_inv sp s'" using pg vs ps by (simp add: pages_inv_def)
    ultimately show ?thesis by simp
  next
    case (no_page url0 depth0 referer0 rest0 title content links success)
    with tv have eq: "url0 = url" "depth0 = depth" "referer0 = referer" "rest0 = rest" by auto
    from no_page(6) have vs: "visited s' = insert url (visited s)" and ps: "pages s' = pages s"
      by (simp_all add: eq)
    have nc: "\<not> has_content sp url"
      using no_page(4,5) indep by (simp add: has_content_def eq split: prod.splits) (metis prod.inject)
    have "closure_inv bh sp md pp bd s'"
    proof (rule closure_step)
      show "\<forall>e\<in>set (dequeued s). closed_entry bh sp md pp bd s' e"
        by (rule old_closure) (use vs no_page(3) eq in auto)
      show "closed_entry bh sp md pp bd s' (url, depth, referer)"
        using nc by (simp add: closed_entry_def)
    qed
    moreover have "pages_inv sp s'" using pg vs ps nc by (auto simp: pages_inv_def)
    ultimately show ?thesis by simp
  next
    case (page_only url0 depth0 referer0 rest0 title content links)
    with tv have eq: "url0 = url" "depth0 = depth" "referer0 = referer" "rest0 = rest" by auto
    from page_only(7) have vs: "visited s' = insert url (visited s)"
      and ps: "pages s' = pages s @ [\<lparr>page_url = url, page_title = title, page_content = content\<rparr>]"
      by (simp_all add: eq)
    have "closure_inv bh sp md pp bd s'"
    proof (rule closure_step)
      show "\<forall>e\<in>set (dequeued s). closed_entry bh sp md pp bd s' e"
        by (rule old_closure) (use vs page_only(3) eq in auto)
      show "closed_entry bh sp md pp bd s' (url, depth, referer)"
        using page_only(6) by (simp add: closed_entry_def depth_of_def eq)
    qed
    moreover have "pages_inv sp s'" using pg vs ps by (auto simp: pages_inv_def)
    ultimately show ?thesis by simp
  next
    case (page_links url0 depth0 referer0 rest0 title content links)
    with tv have eq: "url0 = url" "depth0 = depth" "referer0 = referer" "rest0 = rest" by auto
    let ?s3 = "s\<lparr>to_visit := rest, dequeued := dequeued s @ [(url, depth, referer)],
            visited := insert url (visited s),
            pages := pages s @ [\<lparr>page_url = url, page_title = title, page_content = content\<rparr>]\<rparr>"
    from page_links(7) have enq: "enqueue_links bh url depth links ?s3 = Inr s'" by (simp add: eq)
    have vs: "visited s' = insert url (visited s)"
      using enqueue_links_visited [OF enq] by simp
    have ps: "pages s' = pages s @ [\<lparr>page_url = url, page_title = title, page_content = content\<rparr>]"
      using enqueue_links_pages [OF enq] by simp
    have lk: "links_of sp url = links"
      using page_links(4) indep by (simp add: links_of_def eq split: prod.splits) (metis prod.inject)
    have new_entry: "\<forall>l\<in>set (links_of sp url). \<forall>v. normalize_url bh (link_url l) = Inr v \<longrightarrow>
           passes_checks bh bd pp v \<longrightarrow>
           (\<exists>e'\<in>set (dequeued s') \<union> set (to_visit s'). fst e' = v \<and> depth_of e' \<le> depth + 1)"
    proof (intro ballI allI impI)
      fix l v assume l: "l \<in> set (links_of sp url)" and n: "normalize_url bh (link_url l) = Inr v"
      from l lk have "l \<in> set links" by simp
      from enqueue_links_covers [OF enq this] n
      have "v \<in> visited ?s3 \<or> v \<in> fst ` set (to_visit s')" by auto
      then consider "v = url" | "v \<in> visited s" | "v \<in> fst ` set (to_visit s')" by auto
      then show "\<exists>e'\<in>set (dequeued s') \<union> set (to_visit s'). fst e' = v \<and> depth_of e' \<le> depth + 1"
      proof cases
        case 1
        have "(url, depth, referer) \<in> set (dequeued s')" by (simp add: lg)
        with 1 show ?thesis by (force simp: depth_of_def)
      next
        case 2
        from visited_logged [OF qi 2] obtain e' where e': "e' \<in> set (dequeued s)" "fst e' = v" by blast
        with lo have "depth_of e' \<le> depth + 1" by force
        with e' lg show ?thesis by auto
      next
        case 3
        then obtain e' where e': "e' \<in> set (to_visit s')" "fst e' = v" by auto
        with qd' have "depth_of e' \<le> depth + 1" by blast
        with e' show ?thesis by blast
      qed
    qed
    have "closure_inv bh sp md pp bd s'"
    proof (rule closure_step)
      show "\<forall>e\<in>set (dequeued s). closed_entry bh sp md pp bd s' e"
        by (rule old_closure) (use vs page_links(3) eq in auto)
      show "closed_entry bh sp md pp bd s' (url, depth, referer)"
        using new_entry by (simp add: closed_entry_def depth_of_def)
    qed
    moreover have "pages_inv sp s'" using pg vs ps by (auto simp: pages_inv_def)
    ultimately show ?thesis by simp
  qed
  with qi' bo' st' show ?thesis by (simp add: bfs_inv_def)
qed


definition reachable_page ::
  "(string \<Rightarrow> bool) \<Rightarrow> (string \<Rightarrow> string option \<Rightarrow> scrape_result) \<Rightarrow> int option \<Rightarrow> string option
     \<Rightarrow> string \<Rightarrow> string \<Rightarrow> string \<Rightarrow> bool" where
  "reachable_page bh sp md pp bd start u =
     ((\<exists>d. reach bh sp md pp bd start u d) \<and> passes_checks bh bd pp u \<and> has_content sp u)"

lemma crawl_loop_bfs_inv:
  assumes "crawl_loop bh sp mp md pp bd s = Inr s'" and "\<forall>u r. sp u r = sp u None"
    and "bfs_inv bh sp md pp bd start s"
  shows "bfs_inv bh sp md pp bd start s'"
proof (rule crawl_loop_invariant [OF assms(1), where I = "bfs_inv bh sp md pp bd start"])
  show "bfs_inv bh sp md pp bd start s" by (rule assms(3))
next
  fix t t'
  assume "bfs_inv bh sp md pp bd start t" and "crawl_iteration bh sp md pp bd t = Inr t'"
  then show "bfs_inv bh sp md pp bd start t'"
    using crawl_iteration_bfs_inv assms(2) by blast
qed

lemma reach_logged:
  assumes inv: "bfs_inv bh sp md pp bd start t" and empty: "to_visit t = []"
    and r: "reach bh sp md pp bd start v k"
  shows "passes_checks bh bd pp v \<longrightarrow> (\<exists>e\<in>set (dequeued t). fst e = v \<and> depth_of e \<le> k)"
  using r
proof (induction rule: reach.induct)
  case reach_start
  from inv empty have "(start, 0, None) \<in> set (dequeued t)" by (simp add: bfs_inv_def)
  then show ?case by (force simp: depth_of_def)
next
  case (reach_link u d l v)
  show ?case
  proof
    assume pv: "passes_checks bh bd pp v"
    from reach_link.IH reach_link.hyps(2) obtain e where e: "e \<in> set (dequeued t)" "fst e = u"
      "depth_of e \<le> d" by blast
    from inv have qi: "queue_inv bh bd pp t" and cl: "closure_inv bh sp md pp bd t"
      by (simp_all add: bfs_inv_def)
    have uv: "fst e \<in> visited t" using logged_visited [OF qi e(1)] reach_link.hyps(2) e(2) by simp
    have dp: "depth_permits md (depth_of e)"
      using reach_link.hyps(4) e(3) by (auto simp: depth_permits_def split: option.splits)
    from cl e(1) have "closed_entry bh sp md pp bd t e" by (simp add: closure_inv_def)
    with uv dp reach_link.hyps(3,5,6) pv e(2)
    obtain e' where "e' \<in> set (dequeued t) \<union> set (to_visit t)" "fst e' = v"
      "depth_of e' \<le> depth_of e + 1"
      unfolding closed_entry_def by blast
    with empty e(3) show "\<exists>e\<in>set (dequeued t). fst e = v \<and> depth_of e \<le> d + 1" by force
  qed
qed

lemma reachable_page_crawled:
  assumes inv: "bfs_inv bh sp md pp bd start t" and empty: "to_visit t = []"
    and r: "reachable_page bh sp md pp bd start u"
  shows "u \<in> page_url ` set (pages t)"
proof -
  from r obtain d where d: "reach bh sp md pp bd start u d" and pc: "passes_checks bh bd pp u"
    and hc: "has_content sp u" by (auto simp: reachable_page_def)
  from reach_logged [OF inv empty d] pc obtain e where e: "e \<in> set (dequeued t)" "fst e = u" by blast
  from inv have qi: "queue_inv bh bd pp t" and pg: "pages_inv sp t" by (simp_all add: bfs_inv_def)
  from logged_visited [OF qi e(1)] pc e(2) have "u \<in> visited t" by simp
  with pg hc show ?thesis by (simp add: pages_inv_def)
qed

text \<open>
  A site whose home page has empty content and links to \<open>/a\<close>.
\<close>

definition site3 :: "string \<Rightarrow> string option \<Rightarrow> scrape_result" where
  "site3 u r =
     (if u = ''https://ex.com''
      then (''Home'', [], [\<lparr>link_url = ''https://ex.com/a'', link_text = ''a''\<rparr>], True)
      else if u = ''https://ex.com/a'' then (''A'', ''text'', [], True)
      else ([], [], [], False))"

text \<open>
  C1 (as the code has it). With \<open>max_pages = N\<close>, \<open>N \<ge> 1\<close>, the pages returned by \<open>crawl\<close> are at
  most \<open>N\<close>; and they are exactly \<open>N\<close> whenever at least \<open>N\<close> pages can be reached from the start
  URL through pages with content: each page on the way, the start page included, passes the
  host and prefix checks in its canonical form, is scraped with success and non-empty content,
  and is left at a depth that permits queueing. What \<open>scrape_page\<close> returns for a URL is taken
  not to depend on the referer, as in a graph of pages.
\<close>

theorem crawl_page_budget:
  assumes run: "crawl bh sp start_url max_pages md pp = Inr (ps, ls)" and n: "1 \<le> max_pages"
    and start: "normalize_url bh start_url = Inr start"
    and host: "urlparse bh start_url = Some parsed_start"
    and indep: "\<forall>u r. sp u r = sp u None"
  shows "int (length ps) \<le> max_pages \<and>
         ((\<exists>us. distinct us \<and> int (length us) = max_pages \<and>
               (\<forall>u\<in>set us. reachable_page bh sp md pp (netloc parsed_start) start u)) \<longrightarrow>
          int (length ps) = max_pages)"
proof -
  let ?bd = "netloc parsed_start"
  let ?s0 = "\<lparr>visited = {}, to_visit = [(start, 0, None)], pages = [], all_links = [], dequeued = []\<rparr>"
  from run obtain s' where cr: "crawl_run bh sp start_url max_pages md pp = Inr s'"
    and ps: "ps = pages s'"
    by (auto simp: crawl_def split: sum.splits)
  from cr start host have loop: "crawl_loop bh sp max_pages md pp ?bd ?s0 = Inr s'"
    by (simp add: crawl_run_def)
  from crawl_loop_pages_bound [OF loop] n have le: "int (length (pages s')) \<le> max_pages" by simp
  have inv0: "bfs_inv bh sp md pp ?bd start ?s0"
    by (simp add: bfs_inv_def queue_inv_def scraped_urls_def bfs_order_def closure_inv_def
          pages_inv_def)
  from crawl_loop_bfs_inv [OF loop indep inv0] have inv: "bfs_inv bh sp md pp ?bd start s'" .
  have "int (length (pages s')) = max_pages"
    if us: "distinct us" "int (length us) = max_pages"
      "\<forall>u\<in>set us. reachable_page bh sp md pp ?bd start u" for us
  proof (cases "to_visit s' = []")
    case True
    have "set us \<subseteq> page_url ` set (pages s')"
      using us(3) reachable_page_crawled [OF inv True] by blast
    then have "card (set us) \<le> card (page_url ` set (pages s'))"
      by (intro card_mono) auto
    also have "\<dots> \<le> card (set (pages s'))" by (rule card_image_le) simp
    also have "\<dots> \<le> length (pages s')" by (rule card_length)
    finally have "length us \<le> length (pages s')" using us(1) by (simp add: distinct_card)
    with us(2) le show ?thesis by linarith
  next
    case False
    with crawl_loop_exit [OF loop] le show ?thesis by auto
  qed
  with le ps show ?thesis by blast
qed


theorem crawl_page_budget_witness:
  "crawl (\<lambda>_. True) site2 ''https://ex.com/'' 2 None None =
     Inr ([\<lparr>page_url = ''https://ex.com'', page_title = ''Home'', page_content = ''hello''\<rparr>,
           \<lparr>page_url = ''https://ex.com/a'', page_title = ''A'', page_content = ''first''\<rparr>],
          [\<lparr>link_url = ''https://ex.com/a'', link_text = ''a''\<rparr>,
           \<lparr>link_url = ''https://ex.com/c'', link_text = ''c''\<rparr>])
   \<and> reachable_page (\<lambda>_. True) site2 None None ''ex.com'' ''https://ex.com'' ''https://ex.com''
   \<and> reachable_page (\<lambda>_. True) site2 None None ''ex.com'' ''https://ex.com'' ''https://ex.com/a''
   \<and> int (length [\<lparr>page_url = ''https://ex.com'', page_title = ''Home'', page_content = ''hello''\<rparr>,
                    \<lparr>page_url = ''https://ex.com/a'', page_title = ''A'', page_content = ''first''\<rparr>])
       = 2"
proof -
  let ?bh = "\<lambda>_::string. True"
  let ?home = "\<lparr>page_url = ''https://ex.com'', page_title = ''Home'', page_content = ''hello''\<rparr>"
  let ?a = "\<lparr>page_url = ''https://ex.com/a'', page_title = ''A'', page_content = ''first''\<rparr>"
  let ?la = "\<lparr>link_url = ''https://ex.com/a'', link_text = ''a''\<rparr>"
  let ?lc = "\<lparr>link_url = ''https://ex.com/c'', link_text = ''c''\<rparr>"
  let ?parsed = "\<lparr>scheme = ''https'', netloc = ''ex.com'', path = ''/'', params = [], query = [],
                  fragment = []\<rparr>"
  have run: "crawl ?bh site2 ''https://ex.com/'' 2 None None = Inr ([?home, ?a], [?la, ?lc])"
    by code_simp
  have start: "normalize_url ?bh ''https://ex.com/'' = Inr ''https://ex.com''"
    by code_simp
  have host: "urlparse ?bh ''https://ex.com/'' = Some ?parsed"
    by code_simp
  have indep: "\<forall>u r. site2 u r = site2 u None"
    by (simp add: site2_def)
  have r0: "reach ?bh site2 None None ''ex.com'' ''https://ex.com'' ''https://ex.com'' 0"
    by (rule reach_start)
  have p0: "passes_checks ?bh ''ex.com'' None ''https://ex.com''"
    by code_simp
  have c0: "has_content site2 ''https://ex.com''"
    by code_simp
  have l0: "?la \<in> set (links_of site2 ''https://ex.com'')"
    by (simp add: links_of_def site2_def)
  have n0: "normalize_url ?bh (link_url ?la) = Inr ''https://ex.com/a''"
    by code_simp
  have r1: "reach ?bh site2 None None ''ex.com'' ''https://ex.com'' ''https://ex.com/a'' (0 + 1)"
    by (rule reach_link [OF r0 p0 c0 _ l0 n0]) (simp add: depth_permits_def)
  have p1: "passes_checks ?bh ''ex.com'' None ''https://ex.com/a''"
    by code_simp
  have c1: "has_content site2 ''https://ex.com/a''"
    by code_simp
  have rp0: "reachable_page ?bh site2 None None ''ex.com'' ''https://ex.com'' ''https://ex.com''"
    using r0 p0 c0 by (auto simp: reachable_page_def)
  have rp1: "reachable_page ?bh site2 None None ''ex.com'' ''https://ex.com'' ''https://ex.com/a''"
    using r1 p1 c1 by (auto simp: reachable_page_def)
  have enough: "\<exists>us. distinct us \<and> int (length us) = 2 \<and>
      (\<forall>u\<in>set us. reachable_page ?bh site2 None None (netloc ?parsed) ''https://ex.com'' u)"
  proof (intro exI conjI)
    show "distinct [''https://ex.com'', ''https://ex.com/a'']" by simp
    show "int (length [''https://ex.com'', ''https://ex.com/a'']) = 2" by simp
    show "\<forall>u\<in>set [''https://ex.com'', ''https://ex.com/a''].
            reachable_page ?bh site2 None None (netloc ?parsed) ''https://ex.com'' u"
      using rp0 rp1 by simp
  qed
  from crawl_page_budget [OF run _ start host indep] enough
  have "int (length [?home, ?a]) = 2" by simp
  with run rp0 rp1 show ?thesis by simp
qed

text \<open>
  On \<open>site3\<close> the page \<open>/a\<close> is on the host of the start URL, is linked from the start page and
  has content, so one page with content can be reached from the seed; with \<open>max_pages = 1\<close>
  the crawl returns no page, because the start page has no content and its links are not
  followed.
\<close>

theorem crawl_page_budget_counterexample:
  "crawl (\<lambda>_. True) site3 ''https://ex.com/'' 1 None None = Inr ([], [])
   \<and> site3 ''https://ex.com'' None =
       (''Home'', [], [\<lparr>link_url = ''https://ex.com/a'', link_text = ''a''\<rparr>], True)
   \<and> normalize_url (\<lambda>_. True) ''https://ex.com/a'' = Inr ''https://ex.com/a''
   \<and> passes_checks (\<lambda>_. True) ''ex.com'' None ''https://ex.com/a''
   \<and> site3 ''https://ex.com/a'' (Some ''https://ex.com'') = (''A'', ''text'', [], True)
   \<and> strip ''text'' \<noteq> []
   \<and> int (length ([] :: page list)) \<noteq> 1"
  by code_simp

end
